theory Spec2Isabelle
  imports Main "HOL-Library.List_Lexorder" "HOL-Library.Char_ord"
begin

section \<open>Store, nodes and leaves\<close>

text \<open>
  The Go code works on heap objects linked by pointers: a node knows its parent and its
  children, a leaf additionally its neighbours in the ordered list. The model keeps an
  explicit store: a list of cells, an address being an index into it. A reference (a Go
  interface value or pointer) is an optional address, \<open>None\<close> being nil.

  A \<open>leafNode\<close> embeds a \<open>Node\<close> made by \<open>newNode(0)\<close> that nothing else refers to; the
  model keeps the embedded node's fields and the leaf's own fields in one cell, the flag
  \<open>leaf\<close> being the dynamic type (\<open>*leafNode\<close> or \<open>*node\<close>).

  Go's \<open>int\<close> is taken to be 64 bits wide. The one place where the code computes with an
  \<open>int\<close> that the caller chooses is \<open>NewStringDigitizer\<close>, and the wrap-around is modelled
  there. The counters and positions are bounded by the size of the store and of the
  strings, and are modelled as unbounded integers. Allocation never fails for lack of
  memory; \<open>make\<close> panics on a negative length.
\<close>

definition maxInt :: int where
  "maxInt = 9223372036854775807"

definition wrap64 :: "int \<Rightarrow> int" where
  "wrap64 x = (x + 9223372036854775808) mod 18446744073709551616 - 9223372036854775808"

type_synonym addr = nat
type_synonym ref = "addr option"

record cell =
  leaf :: bool
  parent :: ref
  children :: "ref list"
  numChildren :: int
  element :: "string option"
  isRoot :: bool
  nxt :: ref
  previous :: ref
  isHead :: bool
  isTail :: bool

type_synonym heap = "cell list"

text \<open>Run-time panics of the Go code, and the error values it returns.\<close>

datatype panic = NilDereference | IndexPanic | TypeAssertion

datatype err = IndexOutOfRange | SlotOccupied | PrefixViolation | IndexOutOfBounds

type_synonym 'a res = "panic + 'a"

definition andThen :: "'a res \<Rightarrow> ('a \<Rightarrow> 'b res) \<Rightarrow> 'b res" where
  "andThen m f = (case m of Inl p \<Rightarrow> Inl p | Inr x \<Rightarrow> f x)"

text \<open>
  Reading through a reference: a nil reference panics. An address outside the store does
  not exist in Go (memory is never freed while referenced); the model treats it like nil.
\<close>

definition load :: "heap \<Rightarrow> ref \<Rightarrow> cell res" where
  "load h r = (case r of None \<Rightarrow> Inl NilDereference
               | Some a \<Rightarrow> if a < length h then Inr (h ! a) else Inl NilDereference)"

definition alloc :: "heap \<Rightarrow> cell \<Rightarrow> heap \<times> addr" where
  "alloc h c = (h @ [c], length h)"

definition emptyCell :: cell where
  "emptyCell = \<lparr>leaf = False, parent = None, children = [], numChildren = 0,
     element = None, isRoot = False, nxt = None, previous = None,
     isHead = False, isTail = False\<rparr>"

definition newNode :: "int \<Rightarrow> cell" where
  "newNode capacity = (if capacity \<le> 0 then emptyCell
     else emptyCell\<lparr>children := replicate (nat capacity) None\<rparr>)"

definition newRootNode :: "int \<Rightarrow> cell res" where
  \<comment> \<open>\<open>make([]Node, capacity)\<close> panics on a negative length\<close>
  "newRootNode capacity = (if capacity < 0 then Inl IndexPanic
     else Inr (emptyCell\<lparr>children := replicate (nat capacity) None, isRoot := True\<rparr>))"

definition newLeafNode :: cell where
  "newLeafNode = (newNode 0)\<lparr>leaf := True\<rparr>"

definition newHeadNode :: cell where
  "newHeadNode = (newNode 0)\<lparr>leaf := True, isHead := True\<rparr>"

definition newTailNode :: cell where
  "newTailNode = (newNode 0)\<lparr>leaf := True, isTail := True\<rparr>"

subsection \<open>Node\<close>

definition SetParent :: "heap \<Rightarrow> ref \<Rightarrow> ref \<Rightarrow> heap res" where
  "SetParent h n p = andThen (load h n) (\<lambda>c. Inr (h[the n := c\<lparr>parent := p\<rparr>]))"

definition Parent :: "heap \<Rightarrow> ref \<Rightarrow> ref res" where
  "Parent h n = andThen (load h n) (\<lambda>c. Inr (parent c))"

definition AddChildWithIndexOf :: "heap \<Rightarrow> ref \<Rightarrow> int \<Rightarrow> ref \<Rightarrow> (heap \<times> err option) res" where
  "AddChildWithIndexOf h n index child = andThen (load h n) (\<lambda>c.
     if index < 0 \<or> index \<ge> int (length (children c)) then Inr (h, Some IndexOutOfRange)
     else if children c ! nat index \<noteq> None then Inr (h, Some SlotOccupied)
     else
       let k = (if children c ! nat index = None then numChildren c + 1 else numChildren c);
           h1 = h[the n := c\<lparr>children := (children c)[nat index := child], numChildren := k\<rparr>]
       in andThen (SetParent h1 child n) (\<lambda>h2. Inr (h2, None)))"

definition checkBounds :: "cell \<Rightarrow> int \<Rightarrow> err option" where
  "checkBounds c index =
     (if index < 0 \<or> index > int (length (children c)) then Some IndexOutOfRange else None)"

definition ChildWithIndexOf :: "heap \<Rightarrow> ref \<Rightarrow> int \<Rightarrow> (ref \<times> err option) res" where
  "ChildWithIndexOf h n index = andThen (load h n) (\<lambda>c.
     case checkBounds c index of
       Some e \<Rightarrow> Inr (None, Some e)
     | None \<Rightarrow> if nat index < length (children c) then Inr (children c ! nat index, None)
               else Inl IndexPanic)"

definition RemoveChildWithIndexOf :: "heap \<Rightarrow> ref \<Rightarrow> int \<Rightarrow> (heap \<times> bool) res" where
  "RemoveChildWithIndexOf h n index = andThen (load h n) (\<lambda>c.
     case checkBounds c index of
       Some e \<Rightarrow> Inr (h, False)
     | None \<Rightarrow>
         if nat index < length (children c) then
           (if children c ! nat index \<noteq> None
            then Inr (h[the n := c\<lparr>children := (children c)[nat index := None],
                                    numChildren := numChildren c - 1\<rparr>], True)
            else Inr (h, False))
         else Inl IndexPanic)"

definition HasChildren :: "heap \<Rightarrow> ref \<Rightarrow> bool res" where
  "HasChildren h n = andThen (load h n) (\<lambda>c. Inr (numChildren c > 0))"

definition SetValue :: "heap \<Rightarrow> ref \<Rightarrow> string option \<Rightarrow> heap res" where
  "SetValue h n v = andThen (load h n) (\<lambda>c. Inr (h[the n := c\<lparr>element := v\<rparr>]))"

definition Value :: "heap \<Rightarrow> ref \<Rightarrow> string option res" where
  "Value h n = andThen (load h n) (\<lambda>c. Inr (element c))"

definition IsRoot :: "heap \<Rightarrow> ref \<Rightarrow> bool res" where
  "IsRoot h n = andThen (load h n) (\<lambda>c. Inr (isRoot c))"

subsection \<open>LeafNode\<close>

definition SetNext :: "heap \<Rightarrow> ref \<Rightarrow> ref \<Rightarrow> heap res" where
  "SetNext h l n = andThen (load h l) (\<lambda>c. Inr (h[the l := c\<lparr>nxt := n\<rparr>]))"

definition Next :: "heap \<Rightarrow> ref \<Rightarrow> ref res" where
  "Next h l = andThen (load h l) (\<lambda>c. Inr (nxt c))"

definition SetPrevious :: "heap \<Rightarrow> ref \<Rightarrow> ref \<Rightarrow> heap res" where
  "SetPrevious h l p = andThen (load h l) (\<lambda>c. Inr (h[the l := c\<lparr>previous := p\<rparr>]))"

definition Previous :: "heap \<Rightarrow> ref \<Rightarrow> ref res" where
  "Previous h l = andThen (load h l) (\<lambda>c. Inr (previous c))"

definition IsDeleted :: "heap \<Rightarrow> ref \<Rightarrow> bool res" where
  "IsDeleted h l = andThen (load h l) (\<lambda>c. Inr (previous c = None))"

definition IsHead :: "heap \<Rightarrow> ref \<Rightarrow> bool res" where
  "IsHead h l = andThen (load h l) (\<lambda>c. Inr (isHead c))"

definition IsTail :: "heap \<Rightarrow> ref \<Rightarrow> bool res" where
  "IsTail h l = andThen (load h l) (\<lambda>c. Inr (isTail c))"

definition AddAfter :: "heap \<Rightarrow> ref \<Rightarrow> ref \<Rightarrow> heap res" where
  "AddAfter h l leafNode =
     andThen (Next h leafNode) (\<lambda>n.
     andThen (SetNext h l n) (\<lambda>h1.
     andThen (SetNext h1 leafNode l) (\<lambda>h2.
     andThen (SetPrevious h2 l leafNode) (\<lambda>h3.
     andThen (Next h3 l) (\<lambda>n'.
     SetPrevious h3 n' l)))))"

definition markDeleted :: "heap \<Rightarrow> ref \<Rightarrow> heap res" where
  "markDeleted h l = andThen (load h l) (\<lambda>c. Inr (h[the l := c\<lparr>previous := None\<rparr>]))"

definition LeafRemove :: "heap \<Rightarrow> ref \<Rightarrow> heap res" where
  "LeafRemove h l =
     andThen (Previous h l) (\<lambda>p.
     andThen (Next h l) (\<lambda>n.
     andThen (SetNext h p n) (\<lambda>h1.
     andThen (Next h1 l) (\<lambda>n'.
     andThen (Previous h1 l) (\<lambda>p'.
     andThen (SetPrevious h1 n' p') (\<lambda>h2.
     markDeleted h2 l))))))"

section \<open>The string digitizer\<close>

text \<open>
  Elements are strings, held as byte lists. On a string of ASCII bytes \<open>strings.ToLower\<close>
  maps \<open>A\<close>..\<open>Z\<close> to \<open>a\<close>..\<open>z\<close> and keeps every other byte. On a string with a byte from 128
  upwards it decodes UTF-8 and lower-cases by code point; the result may differ in length.
  The model leaves that result open (\<open>unicodeToLower\<close>): nothing is assumed about it, and
  what is proved holds whatever it is. The digitizer indexes the lower-cased string, which
  panics beyond its end. The digit is computed in byte arithmetic, so it wraps modulo 256.
\<close>

record stringDigitizer =
  base :: int

definition NewStringDigitizer :: "int \<Rightarrow> stringDigitizer" where
  "NewStringDigitizer alphabetSize = \<lparr>base = wrap64 (alphabetSize + 1)\<rparr>"

definition Base :: "stringDigitizer \<Rightarrow> int" where
  "Base d = base d"

definition IsPrefixFree :: "stringDigitizer \<Rightarrow> bool" where
  "IsPrefixFree d = True"

definition NumDigitsOf :: "stringDigitizer \<Rightarrow> string \<Rightarrow> int" where
  "NumDigitsOf d e = int (length e) + 1"

definition toLower :: "char \<Rightarrow> char" where
  "toLower c = (if CHR ''A'' \<le> c \<and> c \<le> CHR ''Z'' then char_of (of_char c + (32::nat)) else c)"

definition unicodeToLower :: "string \<Rightarrow> string" where
  "unicodeToLower = undefined"

definition ToLower :: "string \<Rightarrow> string" where
  "ToLower e = (if \<forall>c\<in>set e. (of_char c :: nat) < 128 then map toLower e
                else unicodeToLower e)"

definition DigitOf :: "stringDigitizer \<Rightarrow> string \<Rightarrow> int \<Rightarrow> int res" where
  "DigitOf d e place =
     (if place \<ge> int (length e) then Inr 0
      else if place < 0 then Inl IndexPanic
      else if nat place < length (ToLower e)
           then Inr ((int (of_char (ToLower e ! nat place)) - 97 + 1) mod 256)
           else Inl IndexPanic)"

text \<open>An element read back from a node is an interface value; the digitizer asserts it is a string.\<close>

definition asString :: "string option \<Rightarrow> string res" where
  "asString v = (case v of None \<Rightarrow> Inl TypeAssertion | Some s \<Rightarrow> Inr s)"

section \<open>The search context\<close>

datatype searchResult = Extension | Greater | Less | Matched | Prefix | Unmatched

definition childNotFound :: int where
  "childNotFound = -1"

record searchContext =
  pointer :: ref
  sdigitizer :: stringDigitizer
  branchPosition :: int
  numMatches :: int

text \<open>
  Contexts come from a pool and may have been used before; every field the trie reads is
  set by \<open>prepareSearch\<close> first, so the model hands out a fixed fresh one.
\<close>

definition acquireSearchContext :: searchContext where
  "acquireSearchContext = \<lparr>pointer = None, sdigitizer = \<lparr>base = 0\<rparr>,
     branchPosition = 0, numMatches = 0\<rparr>"

definition atLeaf :: "heap \<Rightarrow> searchContext \<Rightarrow> bool" where
  "atLeaf h s = (case load h (pointer s) of Inl p \<Rightarrow> False | Inr c \<Rightarrow> leaf c)"

definition atRoot :: "heap \<Rightarrow> searchContext \<Rightarrow> bool res" where
  "atRoot h s = andThen (Parent h (pointer s)) (\<lambda>p. Inr (p = None))"

definition childBranchPosition :: "searchContext \<Rightarrow> int \<Rightarrow> int" where
  "childBranchPosition s index = branchPosition s + 1"

definition parentBranchPosition :: "searchContext \<Rightarrow> int" where
  "parentBranchPosition s = branchPosition s - 1"

definition childIndexOf :: "searchContext \<Rightarrow> string \<Rightarrow> int res" where
  "childIndexOf s e = DigitOf (sdigitizer s) e (branchPosition s)"

definition descendToIndex :: "heap \<Rightarrow> searchContext \<Rightarrow> int \<Rightarrow> (searchContext \<times> int) res" where
  "descendToIndex h s index = andThen (ChildWithIndexOf h (pointer s) index) (\<lambda>(child, e).
     if e \<noteq> None \<or> child = None then Inr (s, childNotFound)
     else Inr (s\<lparr>branchPosition := childBranchPosition s index, pointer := child\<rparr>, index))"

definition descendTo :: "heap \<Rightarrow> searchContext \<Rightarrow> string \<Rightarrow> (searchContext \<times> int) res" where
  "descendTo h s e = andThen (DigitOf (sdigitizer s) e (branchPosition s)) (\<lambda>index.
     descendToIndex h s index)"

definition ascend :: "heap \<Rightarrow> searchContext \<Rightarrow> (searchContext \<times> int) res" where
  "ascend h s = andThen (Parent h (pointer s)) (\<lambda>p.
     Inr (s\<lparr>branchPosition := parentBranchPosition s, pointer := p\<rparr>, parentBranchPosition s))"

text \<open>
  Loops that follow pointers need not end on an arbitrary store: they are partial
  functions, \<open>None\<close> standing for a run that does not return.
\<close>

type_synonym 'a comp = "'a res option"

definition andThenO :: "'a comp \<Rightarrow> ('a \<Rightarrow> 'b comp) \<Rightarrow> 'b comp" where
  "andThenO m f = Option.bind m (\<lambda>r. case r of Inl p \<Rightarrow> Some (Inl p) | Inr x \<Rightarrow> f x)"

lemma andThenO_mono [partial_function_mono]:
  assumes "mono_option B" and "\<And>y. mono_option (\<lambda>f. C y f)"
  shows "mono_option (\<lambda>f. andThenO (B f) (\<lambda>y. C y f))"
  unfolding andThenO_def
proof (rule bind_mono [OF assms(1)])
  fix r :: "panic + 'c"
  show "mono_option (\<lambda>f. case r of Inl p \<Rightarrow> Some (Inl p) | Inr x \<Rightarrow> C x f)"
    by (cases r) (simp_all add: option.const_mono assms(2))
qed

text \<open>
  \<open>moveToMaxDescendant\<close>: the inner loop tries the slots from the highest down. Below
  slot 0 every lookup fails the bounds check, so on a node without children the source
  keeps decrementing; that run is one that does not return.
\<close>

partial_function (option) scanDown :: "heap \<Rightarrow> searchContext \<Rightarrow> int \<Rightarrow> searchContext comp" where [code]:
  "scanDown h s index = (case descendToIndex h s index of
       Inl p \<Rightarrow> Some (Inl p)
     | Inr (s', r) \<Rightarrow> if r = childNotFound then scanDown h s' (index - 1) else Some (Inr s'))"

partial_function (option) moveToMaxDescendant :: "heap \<Rightarrow> searchContext \<Rightarrow> searchContext comp" where [code]:
  "moveToMaxDescendant h s =
     (if \<not> atLeaf h s
      then andThenO (scanDown h s (Base (sdigitizer s) - 1)) (\<lambda>s'. moveToMaxDescendant h s')
      else Some (Inr s))"

text \<open>
  \<open>retraceToLastLeftFork\<close>: the inner loop over the lower siblings; the flag tells whether
  it descended (the source returns from the whole function then).
\<close>

function scanLeft :: "heap \<Rightarrow> searchContext \<Rightarrow> int \<Rightarrow> (searchContext \<times> bool) res" where
  "scanLeft h s i =
     (if i \<ge> 0 then
        (case descendToIndex h s i of
           Inl p \<Rightarrow> Inl p
         | Inr (s', r) \<Rightarrow> if r \<noteq> childNotFound then Inr (s', True) else scanLeft h s' (i - 1))
      else Inr (s, False))"
  by pat_completeness auto
termination
  by (relation "measure (\<lambda>(h, s, i). nat (i + 1))") auto

partial_function (option) retraceToLastLeftFork ::
  "heap \<Rightarrow> searchContext \<Rightarrow> string \<Rightarrow> searchContext comp" where [code]:
  "retraceToLastLeftFork h s e =
     andThenO
       (if \<not> atLeaf h s
        then Some (andThen (DigitOf (sdigitizer s) e (branchPosition s)) (\<lambda>index.
                     scanLeft h s (index - 1)))
        else Some (Inr (s, False)))
       (\<lambda>(s1, found).
          if found then Some (Inr s1)
          else andThenO (Some (atRoot h s1)) (\<lambda>r.
            if r then Some (Inr s1)
            else andThenO (Some (ascend h s1)) (\<lambda>(s2, b). retraceToLastLeftFork h s2 e)))"

text \<open>
  \<open>processedEndOfString\<close> reads slot 0 of the parent before it looks at \<open>IsRoot\<close>.
  \<open>reflect.DeepEqual\<close> of two node references is modelled as identity of the references.
\<close>

definition processedEndOfString :: "heap \<Rightarrow> searchContext \<Rightarrow> string \<Rightarrow> bool res" where
  "processedEndOfString h s e =
     andThen (Parent h (pointer s)) (\<lambda>p.
     andThen (ChildWithIndexOf h p 0) (\<lambda>(childNode, er).
     andThen (IsRoot h (pointer s)) (\<lambda>r.
     Inr (IsPrefixFree (sdigitizer s) \<and> \<not> r \<and> childNode = pointer s))))"

text \<open>
  \<open>elementsInSubtree\<close> calls itself from inside its loop over the slots. The two are one
  partial function here: \<open>Inl\<close> is the entry of the source function, \<open>Inr\<close> its loop at
  slot \<open>i\<close>. The output collection is the list the elements are appended to.
\<close>

partial_function (option) elementsInSubtreeFrom ::
  "heap \<Rightarrow> (searchContext \<times> string option list) + (searchContext \<times> int \<times> string option list)
    \<Rightarrow> (searchContext \<times> string option list) comp" where [code]:
  "elementsInSubtreeFrom h w =
     (case w of
        Inl (s, out) \<Rightarrow>
          if atLeaf h s
          then Some (andThen (Value h (pointer s)) (\<lambda>v. Inr (s, out @ [v])))
          else elementsInSubtreeFrom h (Inr (s, 0, out))
      | Inr (s, i, out) \<Rightarrow>
          if i < Base (sdigitizer s) then
            andThenO (Some (descendToIndex h s i)) (\<lambda>(s1, r).
              if r \<noteq> childNotFound then
                andThenO (elementsInSubtreeFrom h (Inl (s1, out))) (\<lambda>(s2, out2).
                andThenO (Some (ascend h s2)) (\<lambda>(s3, b).
                elementsInSubtreeFrom h (Inr (s3, i + 1, out2))))
              else elementsInSubtreeFrom h (Inr (s1, i + 1, out)))
          else Some (Inr (s, out)))"

definition elementsInSubtree ::
  "heap \<Rightarrow> searchContext \<Rightarrow> string option list \<Rightarrow> (searchContext \<times> string option list) comp" where
  "elementsInSubtree h s out = elementsInSubtreeFrom h (Inl (s, out))"

section \<open>The trie\<close>

text \<open>
  The trie owns its store. The digitizer is the string digitizer; the struct's field
  \<open>base\<close> is never written or read and is left out; \<open>size\<close> is called \<open>tsize\<close>, and
  \<open>find\<close>, \<open>insert\<close>, \<open>remove\<close>, \<open>Min\<close> and \<open>Max\<close> carry the suffix \<open>_trie\<close>.
\<close>

record trie =
  heap :: heap
  root :: ref
  head :: ref
  tail :: ref
  digitizer :: stringDigitizer
  capacity :: int
  tsize :: int

definition newTrieWithDigitizer :: "stringDigitizer \<Rightarrow> trie res" where
  "newTrieWithDigitizer d =
     (let cap = Base d;
          (h1, hd) = alloc [] newHeadNode;
          (h2, tl) = alloc h1 newTailNode
      in andThen (SetNext h2 (Some hd) (Some tl)) (\<lambda>h3.
         andThen (SetNext h3 (Some tl) (Some hd)) (\<lambda>h4.
         Inr \<lparr>heap = h4, root = None, head = Some hd, tail = Some tl,
              digitizer = d, capacity = cap, tsize = 0\<rparr>)))"

definition newTrie :: "int \<Rightarrow> trie res" where
  "newTrie cap = newTrieWithDigitizer (NewStringDigitizer cap)"

definition NewTrie :: "int \<Rightarrow> trie res" where
  "NewTrie cap = newTrie cap"

definition Size :: "trie \<Rightarrow> int" where
  "Size t = tsize t"

definition IsEmpty :: "trie \<Rightarrow> bool" where
  "IsEmpty t = (Size t = 0)"

definition prepareSearch :: "trie \<Rightarrow> searchContext \<Rightarrow> searchContext" where
  "prepareSearch t sctx = sctx\<lparr>pointer := root t, sdigitizer := digitizer t, branchPosition := 0\<rparr>"

partial_function (option) findLoop ::
  "heap \<Rightarrow> string \<Rightarrow> int \<Rightarrow> searchContext \<Rightarrow> (searchResult \<times> searchContext) comp" where [code]:
  "findLoop h e numDigitsInElement sctx =
     (if pointer sctx \<noteq> None \<and> \<not> atLeaf h sctx then
        (if branchPosition sctx = numDigitsInElement then Some (Inr (Prefix, sctx))
         else (case descendTo h sctx e of
                 Inl p \<Rightarrow> Some (Inl p)
               | Inr (sctx', r) \<Rightarrow>
                   if r = childNotFound then Some (Inr (Unmatched, sctx'))
                   else findLoop h e numDigitsInElement sctx'))
      else if pointer sctx \<noteq> None \<and> branchPosition sctx \<noteq> numDigitsInElement
           then Some (Inr (Extension, sctx))
           else Some (Inr (Matched, sctx)))"

definition find_trie :: "trie \<Rightarrow> string \<Rightarrow> searchContext \<Rightarrow> (searchResult \<times> searchContext) comp" where
  "find_trie t e sctx0 =
     (let sctx = prepareSearch t sctx0 in
      if IsEmpty t then Some (Inr (Unmatched, sctx))
      else findLoop (heap t) e (NumDigitsOf (digitizer t) e) sctx)"

text \<open>
  \<open>addNode\<close>: the loop makes one inner node per digit but the last. The errors that
  \<open>AddChildWithIndexOf\<close> returns are dropped, as in the source.
\<close>

function addNodeLoop :: "trie \<Rightarrow> string \<Rightarrow> searchContext \<Rightarrow> (trie \<times> searchContext) res" where
  "addNodeLoop t e sctx =
     (if branchPosition sctx < NumDigitsOf (digitizer t) e - 1 then
        (case DigitOf (digitizer t) e (branchPosition sctx) of
           Inl p \<Rightarrow> Inl p
         | Inr index \<Rightarrow>
             (let (h1, childNode) = alloc (heap t) (newNode (capacity t))
              in case AddChildWithIndexOf h1 (pointer sctx) index (Some childNode) of
                   Inl p \<Rightarrow> Inl p
                 | Inr (h2, er) \<Rightarrow>
                     addNodeLoop (t\<lparr>heap := h2\<rparr>) e
                       (sctx\<lparr>pointer := Some childNode, branchPosition := branchPosition sctx + 1\<rparr>)))
      else Inr (t, sctx))"
  by pat_completeness auto
termination
  by (relation "measure (\<lambda>(t, e, sctx). nat (NumDigitsOf (digitizer t) e - 1 - branchPosition sctx))")
     (auto simp: NumDigitsOf_def)

definition addNode :: "trie \<Rightarrow> ref \<Rightarrow> searchContext \<Rightarrow> (trie \<times> searchContext) res" where
  "addNode t node sctx0 =
     andThen (if pointer sctx0 = None
              then andThen (newRootNode (capacity t)) (\<lambda>c.
                     let (h1, r) = alloc (heap t) c
                     in Inr (t\<lparr>heap := h1, root := Some r\<rparr>, sctx0\<lparr>pointer := Some r\<rparr>))
              else Inr (t, sctx0)) (\<lambda>(t1, sctx1).
     andThen (Value (heap t1) node) (\<lambda>v.
     andThen (asString v) (\<lambda>e.
     andThen (addNodeLoop t1 e sctx1) (\<lambda>(t2, sctx2).
     andThen (DigitOf (digitizer t2) e (branchPosition sctx2)) (\<lambda>index.
     andThen (AddChildWithIndexOf (heap t2) (pointer sctx2) index node) (\<lambda>(h3, er).
     Inr (t2\<lparr>heap := h3\<rparr>,
          sctx2\<lparr>pointer := node, branchPosition := branchPosition sctx2 + 1\<rparr>)))))))"

definition moveToPredecessor ::
  "trie \<Rightarrow> string \<Rightarrow> searchContext \<Rightarrow> searchResult \<Rightarrow> (bool \<times> searchContext) comp" where
  "moveToPredecessor t e sctx sr =
     (if atLeaf (heap t) sctx \<and> (sr = Greater \<or> sr = Extension) then Some (Inr (True, sctx))
      else
        andThenO (if sr \<noteq> Greater then retraceToLastLeftFork (heap t) sctx e else Some (Inr sctx))
          (\<lambda>s1.
        andThenO (Some (atRoot (heap t) s1)) (\<lambda>r.
          if r then Some (Inr (False, s1))
          else if \<not> atLeaf (heap t) s1
               then andThenO (moveToMaxDescendant (heap t) s1) (\<lambda>s2. Some (Inr (True, s2)))
               else Some (Inr (True, s1)))))"

text \<open>The type assertion \<open>sctx.pointer.(LeafNode)\<close>.\<close>

definition asLeafNode :: "heap \<Rightarrow> ref \<Rightarrow> ref res" where
  "asLeafNode h r = (case load h r of Inl p \<Rightarrow> Inl TypeAssertion
                    | Inr c \<Rightarrow> if leaf c then Inr r else Inl TypeAssertion)"

definition insert_trie :: "trie \<Rightarrow> string \<Rightarrow> (trie \<times> ref \<times> err option) comp" where
  "insert_trie t e =
     andThenO (find_trie t e acquireSearchContext) (\<lambda>(sr, sctx).
       if sr = Matched \<or> (\<not> IsPrefixFree (digitizer t) \<and> (sr = Prefix \<or> sr = Extension))
       then Some (Inr (t, None, Some PrefixViolation))
       else
         (let (h1, leafNode) = alloc (heap t) newLeafNode in
          andThenO (Some (SetValue h1 (Some leafNode) (Some e))) (\<lambda>h2.
          andThenO (Some (addNode (t\<lparr>heap := h2\<rparr>) (Some leafNode) sctx)) (\<lambda>(t3, sctx3).
          andThenO (moveToPredecessor t3 e sctx3 Matched) (\<lambda>(found, sctx4).
          andThenO (if found
                    then Some (andThen (asLeafNode (heap t3) (pointer sctx4)) (\<lambda>l.
                                 AddAfter (heap t3) (Some leafNode) l))
                    else Some (AddAfter (heap t3) (Some leafNode) (head t3))) (\<lambda>h5.
          Some (Inr (t3\<lparr>heap := h5, tsize := tsize t3 + 1\<rparr>, Some leafNode, None))))))))"

definition Add :: "trie \<Rightarrow> string \<Rightarrow> (trie \<times> err option) comp" where
  "Add t e = andThenO (insert_trie t e) (\<lambda>(t', n, er). Some (Inr (t', er)))"

text \<open>\<open>AddAll\<close> over the values of the given collection, stopping at the first error.\<close>

fun AddAll :: "trie \<Rightarrow> string list \<Rightarrow> (trie \<times> err option) comp" where
  "AddAll t [] = Some (Inr (t, None))"
| "AddAll t (v # vs) =
     andThenO (Add t v) (\<lambda>(t', er). if er \<noteq> None then Some (Inr (t', er)) else AddAll t' vs)"

subsection \<open>The iterator\<close>

text \<open>An iterator is its pointer into the list of leaves; the trie it belongs to is passed along.\<close>

record iterator =
  ipointer :: ref

definition newIterator :: "ref \<Rightarrow> iterator" where
  "newIterator p = \<lparr>ipointer = p\<rparr>"

definition inCollection :: "heap \<Rightarrow> iterator \<Rightarrow> bool res" where
  "inCollection h i =
     andThen (IsHead h (ipointer i)) (\<lambda>hd.
     andThen (if hd then Inr True else IsTail h (ipointer i)) (\<lambda>ht.
     if ht then Inr False
     else andThen (IsDeleted h (ipointer i)) (\<lambda>d. Inr (\<not> d))))"

definition get :: "heap \<Rightarrow> iterator \<Rightarrow> string option res" where
  "get h i = andThen (inCollection h i) (\<lambda>b. if b then Value h (ipointer i) else Inr None)"

partial_function (option) skipRemovedElements :: "heap \<Rightarrow> ref \<Rightarrow> (heap \<times> ref) comp" where [code]:
  "skipRemovedElements h leafNode =
     andThenO (Some (IsHead h leafNode)) (\<lambda>hd.
     andThenO (Some (if hd then Inr True else IsTail h leafNode)) (\<lambda>ht.
     andThenO (Some (if ht then Inr True
                     else andThen (IsDeleted h leafNode) (\<lambda>d. Inr (\<not> d)))) (\<lambda>stop.
     if stop then Some (Inr (h, leafNode))
     else
       andThenO (Some (Next h leafNode)) (\<lambda>n.
       andThenO (skipRemovedElements h n) (\<lambda>(h1, r).
       andThenO (Some (SetNext h1 leafNode r)) (\<lambda>h2.
       andThenO (Some (Next h2 leafNode)) (\<lambda>n2.
       Some (Inr (h2, n2)))))))))"

definition advance :: "heap \<Rightarrow> iterator \<Rightarrow> (heap \<times> iterator \<times> bool) comp" where
  "advance h i =
     andThenO (Some (IsTail h (ipointer i))) (\<lambda>tl.
     if tl then Some (Inr (h, i, False))
     else
       andThenO (Some (IsHead h (ipointer i))) (\<lambda>hd.
       andThenO (Some (if \<not> hd then IsDeleted h (ipointer i) else Inr False)) (\<lambda>skip.
       andThenO (if skip then skipRemovedElements h (ipointer i)
                 else Some (andThen (Next h (ipointer i)) (\<lambda>n. Inr (h, n)))) (\<lambda>(h1, p).
       andThenO (Some (IsTail h1 p)) (\<lambda>tl1.
       Some (Inr (h1, i\<lparr>ipointer := p\<rparr>, \<not> tl1)))))))"

subsection \<open>Reading the trie\<close>

partial_function (option) valuesLoop ::
  "heap \<Rightarrow> iterator \<Rightarrow> string option list \<Rightarrow> (heap \<times> string option list) comp" where [code]:
  "valuesLoop h i elements =
     andThenO (advance h i) (\<lambda>(h1, i1, more).
       if more
       then andThenO (Some (get h1 i1)) (\<lambda>v. valuesLoop h1 i1 (elements @ [v]))
       else Some (Inr (h1, elements)))"

text \<open>
  Skipping removed leaves rewrites their forward links, so reading the values returns the
  trie as well.
\<close>

definition Values :: "trie \<Rightarrow> (trie \<times> string option list) comp" where
  "Values t = andThenO (valuesLoop (heap t) (newIterator (head t)) [])
     (\<lambda>(h1, elements). Some (Inr (t\<lparr>heap := h1\<rparr>, elements)))"






definition Contains :: "trie \<Rightarrow> string \<Rightarrow> bool comp" where
  "Contains t e =
     (if IsEmpty t then Some (Inr False)
      else andThenO (find_trie t e acquireSearchContext) (\<lambda>(sr, sctx). Some (Inr (sr = Matched))))"

definition Predecessor :: "trie \<Rightarrow> string \<Rightarrow> string option comp" where
  "Predecessor t e =
     (if \<not> IsEmpty t then
        andThenO (find_trie t e acquireSearchContext) (\<lambda>(sr, sctx).
        andThenO (moveToPredecessor t e sctx sr) (\<lambda>(found, sctx1).
        if found then Some (Value (heap t) (pointer sctx1)) else Some (Inr None)))
      else Some (Inr None))"

definition Successor :: "trie \<Rightarrow> string \<Rightarrow> string option comp" where
  "Successor t e =
     (if \<not> IsEmpty t then
        andThenO (find_trie t e acquireSearchContext) (\<lambda>(searchResult, sctx).
        andThenO
          (if searchResult = Matched
           then Some (andThen (asLeafNode (heap t) (pointer sctx)) (\<lambda>l. Next (heap t) l))
           else
             andThenO (find_trie t e sctx) (\<lambda>(sr2, sctx2).
             andThenO (moveToPredecessor t e sctx2 sr2) (\<lambda>(found, sctx3).
             if found
             then Some (andThen (asLeafNode (heap t) (pointer sctx3)) (\<lambda>l. Next (heap t) l))
             else Some (Inr (tail t))))) (\<lambda>successor.
        andThenO (Some (IsTail (heap t) successor)) (\<lambda>tl.
        if \<not> tl then Some (Value (heap t) successor) else Some (Inr None))))
      else Some (Inr None))"

definition Completions :: "trie \<Rightarrow> string \<Rightarrow> string option list \<Rightarrow> string option list comp" where
  "Completions t prefix out =
     (if \<not> IsEmpty t then
        andThenO (find_trie t prefix acquireSearchContext) (\<lambda>(searchResult, sctx).
        andThenO
          (if IsPrefixFree (digitizer t)
           then andThenO (Some (processedEndOfString (heap t) sctx prefix)) (\<lambda>b.
                  if b then Some (andThen (ascend (heap t) sctx) (\<lambda>(s', p).
                              Inr (s', NumDigitsOf (digitizer t) prefix - 1)))
                  else Some (Inr (sctx, NumDigitsOf (digitizer t) prefix - 1)))
           else Some (Inr (sctx, NumDigitsOf (digitizer t) prefix))) (\<lambda>(sctx1, numDigits).
        if searchResult = Prefix \<or> searchResult = Matched \<or> branchPosition sctx1 = numDigits
        then andThenO (elementsInSubtree (heap t) sctx1 out) (\<lambda>(s2, out2). Some (Inr out2))
        else Some (Inr out)))
      else Some (Inr out))"

definition LongestCommonPrefix ::
  "trie \<Rightarrow> string \<Rightarrow> string option list \<Rightarrow> string option list comp" where
  "LongestCommonPrefix t prefix out =
     (if \<not> IsEmpty t then
        andThenO (find_trie t prefix acquireSearchContext) (\<lambda>(searchResult, sctx).
        andThenO (Some (processedEndOfString (heap t) sctx prefix)) (\<lambda>b.
        andThenO (if b then Some (andThen (ascend (heap t) sctx) (\<lambda>(s', p). Inr s'))
                  else Some (Inr sctx)) (\<lambda>sctx1.
        andThenO (elementsInSubtree (heap t) sctx1 out) (\<lambda>(s2, out2). Some (Inr out2)))))
      else Some (Inr out))"

subsection \<open>Removal\<close>

partial_function (option) removeLoop ::
  "heap \<Rightarrow> stringDigitizer \<Rightarrow> string \<Rightarrow> ref \<Rightarrow> int \<Rightarrow> heap comp" where [code]:
  "removeLoop h d e node level =
     andThenO (Some (IsRoot h node)) (\<lambda>r.
     andThenO (Some (if \<not> r then HasChildren h node else Inr True)) (\<lambda>c.
     if \<not> r \<and> \<not> c then
       andThenO (Some (Parent h node)) (\<lambda>parent.
       andThenO (Some (DigitOf d e (level - 1))) (\<lambda>index.
       andThenO (Some (RemoveChildWithIndexOf h parent index)) (\<lambda>(h1, b).
       removeLoop h1 d e parent (level - 1))))
     else Some (Inr h)))"

definition remove_trie :: "trie \<Rightarrow> ref \<Rightarrow> trie comp" where
  "remove_trie t node =
     andThenO (Some (case load (heap t) node of
                       Inl p \<Rightarrow> Inr (heap t)
                     | Inr c \<Rightarrow> if leaf c then LeafRemove (heap t) node else Inr (heap t))) (\<lambda>h1.
     andThenO (Some (Value h1 node)) (\<lambda>v.
     andThenO (Some (asString v)) (\<lambda>e.
     andThenO (removeLoop h1 (digitizer t) e node (NumDigitsOf (digitizer t) e)) (\<lambda>h2.
     Some (Inr (t\<lparr>heap := h2, tsize := tsize t - 1\<rparr>))))))"

definition Remove :: "trie \<Rightarrow> string \<Rightarrow> (trie \<times> bool) comp" where
  "Remove t e =
     (if IsEmpty t then Some (Inr (t, False))
      else andThenO (find_trie t e acquireSearchContext) (\<lambda>(sr, sctx).
        if sr \<noteq> Matched then Some (Inr (t, False))
        else andThenO (remove_trie t (pointer sctx)) (\<lambda>t'. Some (Inr (t', True)))))"

definition iterator_remove :: "trie \<Rightarrow> iterator \<Rightarrow> trie comp" where
  "iterator_remove t i =
     andThenO (Some (inCollection (heap t) i)) (\<lambda>b.
       if b then remove_trie t (ipointer i) else Some (Inr t))"

partial_function (option) clearLoop :: "trie \<Rightarrow> iterator \<Rightarrow> trie comp" where [code]:
  "clearLoop t i =
     andThenO (advance (heap t) i) (\<lambda>(h1, i1, more).
       if more
       then andThenO (iterator_remove (t\<lparr>heap := h1\<rparr>) i1) (\<lambda>t2. clearLoop t2 i1)
       else Some (Inr (t\<lparr>heap := h1\<rparr>)))"

definition Clear :: "trie \<Rightarrow> trie comp" where
  "Clear t = clearLoop t (newIterator (head t))"

section \<open>Keys, paths and well-formed tries\<close>

text \<open>
  The rest of the development describes the heap of a trie by the set of keys it holds.
  The key of a string is its sequence of digits: one digit per character, as \<open>DigitOf\<close>
  computes it (byte arithmetic, wrapping modulo 256), followed by the terminator 0.
\<close>

definition digitOfChar :: "char \<Rightarrow> nat" where
  "digitOfChar c = nat ((int (of_char (toLower c)) - 97 + 1) mod 256)"

definition key :: "string \<Rightarrow> nat list" where
  "key s = map digitOfChar s @ [0]"

text \<open>
  A string is over the alphabet of a trie of capacity \<open>n\<close> when each of its characters is
  an ASCII character whose lower-case form is one of the first \<open>n\<close> letters: its digits
  are then between 1 and \<open>n\<close>, and fit the \<open>n + 1\<close> slots of a node.
\<close>

definition inAlphabet :: "int \<Rightarrow> string \<Rightarrow> bool" where
  "inAlphabet n s = (\<forall>c\<in>set s. (of_char c :: nat) < 128 \<and> 97 \<le> (of_char (toLower c) :: nat)
      \<and> int (of_char (toLower c)) - 96 \<le> n)"

text \<open>A key for radix \<open>B\<close>: digits between 1 and \<open>B - 1\<close>, then the terminator.\<close>

definition goodKey :: "nat \<Rightarrow> nat list \<Rightarrow> bool" where
  "goodKey B k = (0 < B \<and> k \<noteq> [] \<and> last k = 0 \<and> (\<forall>x\<in>set (butlast k). 1 \<le> x \<and> x < B))"

text \<open>The number of slots of a node that hold a child.\<close>

definition occupied :: "cell \<Rightarrow> nat" where
  "occupied c = length (filter (\<lambda>r. r \<noteq> None) (children c))"

subsection \<open>The tree\<close>

text \<open>
  A tree is described by the set \<open>IP\<close> of the paths of its inner nodes, the set \<open>K\<close> of the
  keys of its leaves and the address \<open>ad p\<close> of the node at path \<open>p\<close>. An inner node has
  \<open>B\<close> slots, slot \<open>x\<close> holding the node at path \<open>p @ [x]\<close> when there is one; a leaf has
  no slot; each node knows its parent; distinct paths have distinct addresses.
\<close>

definition inner_ok :: "heap \<Rightarrow> nat \<Rightarrow> (nat list \<Rightarrow> addr) \<Rightarrow> nat list set \<Rightarrow> nat list \<Rightarrow> bool" where
  "inner_ok h B ad N p =
     (ad p < length h \<and> \<not> leaf (h ! ad p) \<and> length (children (h ! ad p)) = B \<and>
      (\<forall>x<B. children (h ! ad p) ! x = (if p @ [x] \<in> N then Some (ad (p @ [x])) else None)) \<and>
      parent (h ! ad p) = (if p = [] then None else Some (ad (butlast p))) \<and>
      numChildren (h ! ad p) = int (occupied (h ! ad p)) \<and>
      isRoot (h ! ad p) = (p = []))"

definition leaf_ok :: "heap \<Rightarrow> (nat list \<Rightarrow> addr) \<Rightarrow> nat list \<Rightarrow> bool" where
  "leaf_ok h ad k =
     (ad k < length h \<and> leaf (h ! ad k) \<and> children (h ! ad k) = [] \<and>
      parent (h ! ad k) = Some (ad (butlast k)) \<and> numChildren (h ! ad k) = 0 \<and>
      \<not> isRoot (h ! ad k) \<and> \<not> isHead (h ! ad k) \<and> \<not> isTail (h ! ad k))"

definition shape_ok :: "heap \<Rightarrow> nat \<Rightarrow> (nat list \<Rightarrow> addr) \<Rightarrow> nat list set \<Rightarrow> nat list set \<Rightarrow> bool" where
  "shape_ok h B ad IP K =
     (inj_on ad (IP \<union> K) \<and>
      (\<forall>p x. p @ [x] \<in> IP \<union> K \<longrightarrow> p \<in> IP) \<and>
      (\<forall>k\<in>K. goodKey B k) \<and>
      (\<forall>p\<in>IP. \<forall>x\<in>set p. 1 \<le> x \<and> x < B) \<and>
      (\<forall>p\<in>IP. inner_ok h B ad (IP \<union> K) p) \<and>
      (\<forall>k\<in>K. leaf_ok h ad k))"

text \<open>
  The paths of the inner nodes that \<open>addNode\<close> makes for key \<open>k\<close> below its prefix of length
  \<open>i\<close>, and what growing a heap leaves untouched.
\<close>

definition newInner :: "nat list \<Rightarrow> nat \<Rightarrow> nat list set" where
  "newInner k i = {take j k | j. i < j \<and> j < length k}"

definition grown :: "heap \<Rightarrow> heap \<Rightarrow> (nat list \<Rightarrow> addr) \<Rightarrow> (nat list \<Rightarrow> addr) \<Rightarrow> nat list set
    \<Rightarrow> nat list set \<Rightarrow> nat list set \<Rightarrow> bool" where
  "grown h h' ad ad' IP N N' =
     (length h \<le> length h' \<and> (\<forall>r\<in>N. ad' r = ad r) \<and> (\<forall>r\<in>N' - N. length h \<le> ad' r) \<and>
      (\<forall>a<length h. a \<notin> ad ` IP \<longrightarrow> h' ! a = h ! a))"

subsection \<open>Predecessors\<close>

text \<open>
  \<open>lowerSib N p n\<close> is the greatest digit below \<open>n\<close> under which \<open>p\<close> has a child,
  \<open>maxDesc\<close> the path of the greatest leaf below a path, \<open>lastFork\<close> the node that
  \<open>retraceToLastLeftFork\<close> reaches: the nearest lower sibling of an ancestor of the key.
\<close>

fun lowerSib :: "nat list set \<Rightarrow> nat list \<Rightarrow> nat \<Rightarrow> nat option" where
  "lowerSib N p 0 = None"
| "lowerSib N p (Suc n) = (if p @ [n] \<in> N then Some n else lowerSib N p n)"

text \<open>What the shape says about the paths alone.\<close>

definition paths_ok :: "nat \<Rightarrow> nat list set \<Rightarrow> nat list set \<Rightarrow> bool" where
  "paths_ok B IP K =
     ((\<forall>p x. p @ [x] \<in> IP \<union> K \<longrightarrow> p \<in> IP) \<and> (\<forall>k\<in>K. goodKey B k) \<and>
      (\<forall>p\<in>IP. \<forall>x\<in>set p. 1 \<le> x \<and> x < B))"

fun maxDesc :: "nat list set \<Rightarrow> nat \<Rightarrow> nat \<Rightarrow> nat list \<Rightarrow> nat list" where
  "maxDesc N B 0 q = q"
| "maxDesc N B (Suc n) q = (case lowerSib N q B of None \<Rightarrow> q | Some x \<Rightarrow> maxDesc N B n (q @ [x]))"

fun lastFork :: "nat list set \<Rightarrow> nat list \<Rightarrow> nat \<Rightarrow> nat list" where
  "lastFork N k 0 = (case lowerSib N [] (k ! 0) of Some x \<Rightarrow> [x] | None \<Rightarrow> [])"
| "lastFork N k (Suc j) =
     (case lowerSib N (take (Suc j) k) (k ! Suc j) of
        Some x \<Rightarrow> take (Suc j) k @ [x]
      | None \<Rightarrow> lastFork N k j)"

definition noFork :: "nat list set \<Rightarrow> nat list \<Rightarrow> nat \<Rightarrow> bool" where
  "noFork N k i = (\<forall>y<k ! i. take i k @ [y] \<notin> N)"

subsection \<open>The list of leaves\<close>

text \<open>
  \<open>links h xs\<close>: in heap \<open>h\<close> each cell of \<open>xs\<close> has the following one as its next and is
  the previous of that one. \<open>sameButLinks\<close> relates two heaps that differ in these two
  fields only. \<open>fwd\<close> follows the next links from a cell through a list of cells to a
  last one; a leaf is live when it is neither the head nor the tail nor removed.
\<close>

fun links :: "heap \<Rightarrow> addr list \<Rightarrow> bool" where
  "links h (a # b # r) = (nxt (h ! a) = Some b \<and> previous (h ! b) = Some a \<and> links h (b # r))"
| "links h [a] = True"
| "links h [] = True"

definition sameButLinks :: "heap \<Rightarrow> heap \<Rightarrow> bool" where
  "sameButLinks h h' = (length h' = length h \<and>
     (\<forall>a<length h. (h' ! a)\<lparr>nxt := nxt (h ! a), previous := previous (h ! a)\<rparr> = h ! a))"

fun fwd :: "heap \<Rightarrow> addr \<Rightarrow> addr list \<Rightarrow> addr \<Rightarrow> bool" where
  "fwd h a [] b = (nxt (h ! a) = Some b)"
| "fwd h a (x # xs) b = (nxt (h ! a) = Some x \<and> fwd h x xs b)"

definition live :: "heap \<Rightarrow> addr \<Rightarrow> bool" where
  "live h l = (l < length h \<and> \<not> isHead (h ! l) \<and> \<not> isTail (h ! l) \<and> previous (h ! l) \<noteq> None)"

subsection \<open>The invariant\<close>

text \<open>
  The inner nodes of a trie are at the proper prefixes of its keys, and at the empty path
  once the root exists. The list runs from the head through the leaves to the tail; the
  tail of a fresh trie has no previous leaf until the first insertion, so an empty list
  asks for the forward link only.

  \<open>trie_inv n t vs\<close>: the trie \<open>t\<close> of capacity \<open>n\<close> holds the strings \<open>vs\<close>, which are over
  its alphabet and in strictly ascending order of their keys; its tree has the shape of
  their keys, each leaf holds its string, and the list links the leaves in the order of
  \<open>vs\<close>.
\<close>

definition innerPaths :: "bool \<Rightarrow> nat list set \<Rightarrow> nat list set" where
  "innerPaths hasRoot K = (if hasRoot then {[]} else {}) \<union> {take j k | k j. k \<in> K \<and> j < length k}"

definition list_ok :: "heap \<Rightarrow> addr \<Rightarrow> addr list \<Rightarrow> addr \<Rightarrow> bool" where
  "list_ok h ha ls tb =
     (ha < length h \<and> tb < length h \<and> (\<forall>l\<in>set ls. l < length h) \<and> distinct (ha # ls @ [tb]) \<and>
      leaf (h ! ha) \<and> isHead (h ! ha) \<and> \<not> isTail (h ! ha) \<and>
      leaf (h ! tb) \<and> isTail (h ! tb) \<and> \<not> isHead (h ! tb) \<and>
      (\<forall>l\<in>set ls. \<not> isHead (h ! l) \<and> \<not> isTail (h ! l)) \<and>
      (if ls = [] then nxt (h ! ha) = Some tb else links h (ha # ls @ [tb])))"

definition trie_inv_at ::
  "int \<Rightarrow> trie \<Rightarrow> string list \<Rightarrow> (nat list \<Rightarrow> addr) \<Rightarrow> addr \<Rightarrow> addr \<Rightarrow> bool" where
  "trie_inv_at n t vs ad ha tb =
     (0 \<le> n \<and> capacity t = n + 1 \<and> Base (digitizer t) = n + 1 \<and> tsize t = int (length vs) \<and>
      head t = Some ha \<and> tail t = Some tb \<and>
      (root t = None \<longrightarrow> vs = []) \<and> (root t \<noteq> None \<longrightarrow> root t = Some (ad [])) \<and>
      shape_ok (heap t) (nat (n + 1)) ad (innerPaths (root t \<noteq> None) (key ` set vs)) (key ` set vs) \<and>
      (\<forall>v\<in>set vs. inAlphabet n v \<and> element (heap t ! ad (key v)) = Some v) \<and>
      sorted (map key vs) \<and> distinct (map key vs) \<and>
      list_ok (heap t) ha (map (\<lambda>v. ad (key v)) vs) tb)"

definition trie_inv :: "int \<Rightarrow> trie \<Rightarrow> string list \<Rightarrow> bool" where
  "trie_inv n t vs = (\<exists>ad ha tb. trie_inv_at n t vs ad ha tb)"

text \<open>What reading needs: the list of leaves holds the elements \<open>es\<close>, and the size is their number.\<close>

definition listed :: "trie \<Rightarrow> string option list \<Rightarrow> bool" where
  "listed t es = (\<exists>ha tb ls. head t = Some ha \<and> tail t = Some tb \<and> list_ok (heap t) ha ls tb \<and>
      es = map (\<lambda>l. element (heap t ! l)) ls \<and> tsize t = int (length ls))"

section \<open>Sequences of calls\<close>

text \<open>
  A call of \<open>AddChildWithIndexOf\<close> or \<open>RemoveChildWithIndexOf\<close> on the node at an
  address of the heap, and the run of a sequence of such calls; a panic ends the run.
\<close>

datatype nodeCall = AddChildCall addr int ref | RemoveChildCall addr int

fun runNodeCall :: "heap \<Rightarrow> nodeCall \<Rightarrow> heap res" where
  "runNodeCall h (AddChildCall n i c) =
     andThen (AddChildWithIndexOf h (Some n) i c) (\<lambda>(h', e). Inr h')"
| "runNodeCall h (RemoveChildCall n i) =
     andThen (RemoveChildWithIndexOf h (Some n) i) (\<lambda>(h', b). Inr h')"

fun runNodeCalls :: "heap \<Rightarrow> nodeCall list \<Rightarrow> heap res" where
  "runNodeCalls h [] = Inr h"
| "runNodeCalls h (c # cs) = andThen (runNodeCall h c) (\<lambda>h'. runNodeCalls h' cs)"

text \<open>In every cell the counter is the number of occupied slots.\<close>

definition countsOk :: "heap \<Rightarrow> bool" where
  "countsOk h = (\<forall>c\<in>set h. numChildren c = int (occupied c))"

text \<open>Two heaps that differ in the slots and counters of their nodes only.\<close>

definition sameButChildren :: "heap \<Rightarrow> heap \<Rightarrow> bool" where
  "sameButChildren h h' = (length h' = length h \<and>
     (\<forall>a<length h. (h' ! a)\<lparr>children := children (h ! a), numChildren := numChildren (h ! a)\<rparr>
        = h ! a))"

text \<open>A trie made by \<open>NewTrie\<close> and filled with \<open>AddAll\<close>, as the tests of the repository do.\<close>

definition trieOf :: "int \<Rightarrow> string list \<Rightarrow> (trie \<times> err option) comp" where
  "trieOf n xs = andThenO (Some (NewTrie n)) (\<lambda>t. AddAll t xs)"

text \<open>
  The states of a trie of capacity \<open>n\<close>: the fresh trie, and what the operations that
  change a trie make of a state: \<open>Add\<close> and \<open>Remove\<close>, given a string over the alphabet,
  and \<open>Clear\<close>. (\<open>AddAll\<close> is a sequence of calls of \<open>Add\<close>.)
\<close>

inductive reachable :: "int \<Rightarrow> trie \<Rightarrow> bool" for n :: int where
  reach_new: "0 \<le> n \<Longrightarrow> n < maxInt \<Longrightarrow> NewTrie n = Inr t \<Longrightarrow> reachable n t"
| reach_add: "reachable n t \<Longrightarrow> inAlphabet n s \<Longrightarrow> Add t s = Some (Inr (t', er)) \<Longrightarrow> reachable n t'"
| reach_remove: "reachable n t \<Longrightarrow> inAlphabet n s \<Longrightarrow> Remove t s = Some (Inr (t', b)) \<Longrightarrow> reachable n t'"
| reach_clear: "reachable n t \<Longrightarrow> Clear t = Some (Inr t') \<Longrightarrow> reachable n t'"

section \<open>The radix tree\<close>

text \<open>
  \<open>radixTree\<close> is a struct that embeds a pointer to a trie. Go promotes the methods of
  the embedded trie to the radix tree, and a promoted method runs with the embedded trie
  as its receiver: \<open>Add\<close>, \<open>Contains\<close>, \<open>Remove\<close>, \<open>Size\<close> and \<open>Values\<close> of a radix tree are those
  of its trie, and the \<open>find\<close>, \<open>addNode\<close> and \<open>remove\<close> they call are the trie's. The
  methods \<open>find\<close>, \<open>addNode\<close> and \<open>remove\<close> that \<open>radixTree\<close> declares are called by no
  exported method. Of these, \<open>remove\<close> is modelled: its body is empty.
\<close>

record radixTree =
  embedded :: trie

definition NewRadixTreeWithDigitizer :: "stringDigitizer \<Rightarrow> radixTree res" where
  "NewRadixTreeWithDigitizer d = andThen (newTrieWithDigitizer d) (\<lambda>t. Inr \<lparr>embedded = t\<rparr>)"

definition NewRadixTree :: "int \<Rightarrow> radixTree res" where
  "NewRadixTree cap = NewRadixTreeWithDigitizer (NewStringDigitizer cap)"

definition radixTree_remove :: "radixTree \<Rightarrow> ref \<Rightarrow> radixTree" where
  "radixTree_remove rt node = rt"

definition radixTree_Add :: "radixTree \<Rightarrow> string \<Rightarrow> (radixTree \<times> err option) comp" where
  "radixTree_Add rt e =
     andThenO (Add (embedded rt) e) (\<lambda>(t, er). Some (Inr (rt\<lparr>embedded := t\<rparr>, er)))"

definition radixTree_Remove :: "radixTree \<Rightarrow> string \<Rightarrow> (radixTree \<times> bool) comp" where
  "radixTree_Remove rt e =
     andThenO (Remove (embedded rt) e) (\<lambda>(t, b). Some (Inr (rt\<lparr>embedded := t\<rparr>, b)))"

definition radixTree_Contains :: "radixTree \<Rightarrow> string \<Rightarrow> bool comp" where
  "radixTree_Contains rt e = Contains (embedded rt) e"

definition radixTree_Size :: "radixTree \<Rightarrow> int" where
  "radixTree_Size rt = Size (embedded rt)"

definition radixTree_Values :: "radixTree \<Rightarrow> (radixTree \<times> string option list) comp" where
  "radixTree_Values rt =
     andThenO (Values (embedded rt)) (\<lambda>(t, es). Some (Inr (rt\<lparr>embedded := t\<rparr>, es)))"

section \<open>Verification\<close>

subsection \<open>Digits and keys\<close>

lemma toLower_ascii: "(of_char c :: nat) < 128 \<Longrightarrow> (of_char (toLower c) :: nat) < 128"
  by (auto simp: toLower_def less_eq_char_def)

lemma digitOfChar_eq:
  "(of_char c :: nat) < 128 \<Longrightarrow> 97 \<le> (of_char (toLower c) :: nat)
    \<Longrightarrow> digitOfChar c = of_char (toLower c) - 96"
  using toLower_ascii [of c] unfolding digitOfChar_def by (simp add: nat_diff_distrib' nat_mod_distrib)

lemma length_key [simp]: "length (key s) = Suc (length s)"
  by (simp add: key_def)

lemma key_nth_length [simp]: "key s ! length s = 0"
  by (simp add: key_def nth_append)

lemma key_nth: "i < length s \<Longrightarrow> key s ! i = digitOfChar (s ! i)"
  by (simp add: key_def nth_append)

lemma ToLower_ascii: "\<forall>c\<in>set s. (of_char c :: nat) < 128 \<Longrightarrow> ToLower s = map toLower s"
  by (simp add: ToLower_def)

lemma inAlphabet_ascii: "inAlphabet n s \<Longrightarrow> \<forall>c\<in>set s. (of_char c :: nat) < 128"
  by (simp add: inAlphabet_def)

lemma DigitOf_end: "DigitOf d s (int (length s)) = Inr 0"
  by (simp add: DigitOf_def)

lemma DigitOf_key:
  assumes "\<forall>c\<in>set s. (of_char c :: nat) < 128" and "i \<le> length s"
  shows "DigitOf d s (int i) = Inr (int (key s ! i))"
  using assms(2) by (auto simp: DigitOf_def key_nth digitOfChar_def ToLower_ascii [OF assms(1)])

lemma goodKey_key: "0 \<le> n \<Longrightarrow> inAlphabet n s \<Longrightarrow> goodKey (nat (n + 1)) (key s)"
  unfolding goodKey_def key_def inAlphabet_def
  by (auto simp: digitOfChar_eq)

lemma butlast_mem: "j < length k - 1 \<Longrightarrow> k ! j \<in> set (butlast k)"
proof -
  assume a: "j < length k - 1"
  then have "butlast k ! j = k ! j" by (simp add: nth_butlast)
  moreover have "butlast k ! j \<in> set (butlast k)" using a by (intro nth_mem) simp
  ultimately show ?thesis by simp
qed

lemma goodKey_take:
  assumes "goodKey B k" "goodKey B (take j k)" "j \<le> length k"
  shows "j = length k"
proof (rule ccontr)
  assume "j \<noteq> length k"
  with assms(3) have lt: "j < length k" by simp
  from assms(2) have ne: "take j k \<noteq> []" and l0: "last (take j k) = 0" by (auto simp: goodKey_def)
  from ne have j0: "0 < j" by auto
  have "last (take j k) = k ! (j - 1)" using lt j0 last_conv_nth [OF ne]
    by (simp add: min_def)
  moreover have "k ! (j - 1) \<in> set (butlast k)" using lt j0 by (intro butlast_mem) simp
  ultimately show False using assms(1) l0 by (auto simp: goodKey_def)
qed

lemma goodKey_zero: "goodKey B k \<Longrightarrow> 0 \<in> set k"
  unfolding goodKey_def using last_in_set by metis

lemma goodKey_nth: 
  assumes "goodKey B k" "j < length k" shows "k ! j < B"
proof (cases "j < length k - 1")
  case True
  then show ?thesis using assms(1) butlast_mem [OF True] by (auto simp: goodKey_def)
next
  case False
  with assms(2) have "j = length k - 1" by simp
  moreover have "k \<noteq> []" using assms(2) by auto
  ultimately have "k ! j = last k" using last_conv_nth [of k] by simp
  then show ?thesis using assms(1) by (simp add: goodKey_def)
qed

lemma goodKey_nth_pos: 
  assumes "goodKey B k" "j < length k - 1" shows "1 \<le> k ! j"
  using assms(1) butlast_mem [OF assms(2)] by (auto simp: goodKey_def)

subsection \<open>Searching a well-formed tree\<close>

lemma shape_innerD: "shape_ok h B ad IP K \<Longrightarrow> p \<in> IP \<Longrightarrow> inner_ok h B ad (IP \<union> K) p"
  by (simp add: shape_ok_def)

lemma shape_leafD: "shape_ok h B ad IP K \<Longrightarrow> k \<in> K \<Longrightarrow> leaf_ok h ad k"
  by (simp add: shape_ok_def)

lemma shape_disj: "shape_ok h B ad IP K \<Longrightarrow> p \<in> IP \<Longrightarrow> p \<notin> K"
  unfolding shape_ok_def using goodKey_zero by fastforce

lemma take_Suc_snoc: "j < length k \<Longrightarrow> take (Suc j) k = take j k @ [k ! j]"
  by (simp add: take_Suc_conv_app_nth)

lemma atLeaf_inner: "inner_ok h B ad N p \<Longrightarrow> pointer s = Some (ad p) \<Longrightarrow> \<not> atLeaf h s"
  by (simp add: inner_ok_def atLeaf_def load_def)

lemma atLeaf_leaf: "leaf_ok h ad p \<Longrightarrow> pointer s = Some (ad p) \<Longrightarrow> atLeaf h s"
  by (simp add: leaf_ok_def atLeaf_def load_def)

lemma descendToIndex_inner:
  assumes "inner_ok h B ad N p" "pointer s = Some (ad p)" "x < B"
  shows "descendToIndex h s (int x) =
     (if p @ [x] \<in> N
      then Inr (s\<lparr>branchPosition := branchPosition s + 1, pointer := Some (ad (p @ [x]))\<rparr>, int x)
      else Inr (s, childNotFound))"
  using assms
  by (simp add: inner_ok_def descendToIndex_def ChildWithIndexOf_def load_def andThen_def
      checkBounds_def childBranchPosition_def)

lemma shape_no_zero: "shape_ok h B ad IP K \<Longrightarrow> p \<in> IP \<Longrightarrow> 0 \<notin> set p"
  unfolding shape_ok_def by fastforce

lemma shape_goodKey: "shape_ok h B ad IP K \<Longrightarrow> k \<in> K \<Longrightarrow> goodKey B k"
  by (simp add: shape_ok_def)

lemma findLoop_shape:
  assumes sh: "shape_ok h B ad IP K" and gk: "goodKey B k" and ks: "k = key s"
    and asc: "\<forall>c\<in>set s. (of_char c :: nat) < 128"
  shows "take j k \<in> IP \<union> K \<Longrightarrow> j \<le> length k \<Longrightarrow> pointer sctx = Some (ad (take j k))
    \<Longrightarrow> branchPosition sctx = int j \<Longrightarrow>
     \<exists>m. j \<le> m \<and> m \<le> length k \<and> take m k \<in> IP \<union> K \<and> (take m k \<in> K \<longrightarrow> m = length k) \<and>
       (take m k \<notin> K \<longrightarrow> m < length k \<and> take (Suc m) k \<notin> IP \<union> K) \<and>
       findLoop h s (int (length k)) sctx =
         Some (Inr (if take m k \<in> K then Matched else Unmatched,
                    sctx\<lparr>branchPosition := int m, pointer := Some (ad (take m k))\<rparr>))"
proof (induction "length k - j" arbitrary: j sctx)
  case 0
  then have jl: "j = length k" by simp
  have "k \<notin> IP" using shape_no_zero [OF sh, of k] goodKey_zero [OF gk] by blast
  with 0 jl have kK: "k \<in> K" by simp
  then have "atLeaf h sctx" using atLeaf_leaf [OF shape_leafD [OF sh kK]] 0 jl by simp
  then have "findLoop h s (int (length k)) sctx = Some (Inr (Matched, sctx))"
    using 0 jl by (subst findLoop.simps) simp
  moreover have "sctx\<lparr>branchPosition := int j, pointer := Some (ad (take j k))\<rparr> = sctx"
    using 0 by simp
  ultimately have fl: "findLoop h s (int (length k)) sctx =
         Some (Inr (if take j k \<in> K then Matched else Unmatched,
                    sctx\<lparr>branchPosition := int j, pointer := Some (ad (take j k))\<rparr>))"
    using kK jl by simp
  have c2: "j \<le> length k" and c3: "take j k \<in> IP \<union> K" and c4: "take j k \<in> K \<longrightarrow> j = length k"
    and c5: "take j k \<notin> K \<longrightarrow> j < length k \<and> take (Suc j) k \<notin> IP \<union> K"
    using jl kK by simp_all
  show ?case by (rule exI [of _ j]) (intro conjI le_refl c2 c3 c4 c5 fl)
next
  case (Suc n)
  then have jl: "j < length k" by simp
  have notK: "take j k \<notin> K"
  proof
    assume a: "take j k \<in> K"
    then have "goodKey B (take j k)" using shape_goodKey [OF sh] by simp
    from goodKey_take [OF gk this] jl show False by simp
  qed
  with Suc.prems have inIP: "take j k \<in> IP" by simp
  note io = shape_innerD [OF sh inIP]
  have nl: "\<not> atLeaf h sctx" using atLeaf_inner [OF io] Suc.prems by simp
  have dig: "DigitOf (sdigitizer sctx) s (int j) = Inr (int (k ! j))"
    using DigitOf_key [OF asc, where i = j] jl ks by simp
  have xB: "k ! j < B" using goodKey_nth [OF gk jl] .
  have tk: "take (Suc j) k = take j k @ [k ! j]" using take_Suc_snoc [OF jl] .
  have ds: "descendTo h sctx s = (if take (Suc j) k \<in> IP \<union> K
      then Inr (sctx\<lparr>branchPosition := branchPosition sctx + 1, pointer := Some (ad (take (Suc j) k))\<rparr>, int (k ! j))
      else Inr (sctx, childNotFound))"
    using descendToIndex_inner [OF io Suc.prems(3) xB] dig Suc.prems(4)
    by (simp add: descendTo_def andThen_def tk)
  have pn: "pointer sctx \<noteq> None" using Suc.prems by simp
  have bpn: "branchPosition sctx \<noteq> int (length k)" using Suc.prems jl by simp
  show ?case
  proof (cases "take (Suc j) k \<in> IP \<union> K")
    case False
    have "findLoop h s (int (length k)) sctx = Some (Inr (Unmatched, sctx))"
      using nl pn bpn False ds
      by (subst findLoop.simps) (simp add: childNotFound_def)
    moreover have "sctx\<lparr>branchPosition := int j, pointer := Some (ad (take j k))\<rparr> = sctx"
      using Suc.prems by simp
    ultimately have fl: "findLoop h s (int (length k)) sctx =
         Some (Inr (if take j k \<in> K then Matched else Unmatched,
                    sctx\<lparr>branchPosition := int j, pointer := Some (ad (take j k))\<rparr>))"
      using notK by simp
    have c4: "take j k \<in> K \<longrightarrow> j = length k"
      and c5: "take j k \<notin> K \<longrightarrow> j < length k \<and> take (Suc j) k \<notin> IP \<union> K"
      using notK jl False by simp_all
    show ?thesis by (rule exI [of _ j]) (intro conjI le_refl Suc.prems(1,2) c4 c5 fl)
  next
    case True
    define sctx' where "sctx' = sctx\<lparr>branchPosition := branchPosition sctx + 1,
       pointer := Some (ad (take (Suc j) k))\<rparr>"
    have step: "findLoop h s (int (length k)) sctx = findLoop h s (int (length k)) sctx'"
      using nl pn bpn True ds
      by (subst findLoop.simps) (simp add: childNotFound_def sctx'_def)
    have n: "n = length k - Suc j" using Suc.hyps by simp
    have p1: "Suc j \<le> length k" using jl by simp
    have p2: "pointer sctx' = Some (ad (take (Suc j) k))" by (simp add: sctx'_def)
    have p3: "branchPosition sctx' = int (Suc j)" using Suc.prems(4) by (simp add: sctx'_def)
    from Suc.hyps(1) [OF n True p1 p2 p3]
    obtain m where m: "Suc j \<le> m" "m \<le> length k" "take m k \<in> IP \<union> K"
       "take m k \<in> K \<longrightarrow> m = length k"
       "take m k \<notin> K \<longrightarrow> m < length k \<and> take (Suc m) k \<notin> IP \<union> K"
       and fl': "findLoop h s (int (length k)) sctx' =
         Some (Inr (if take m k \<in> K then Matched else Unmatched,
                    sctx'\<lparr>branchPosition := int m, pointer := Some (ad (take m k))\<rparr>))"
      by blast
    have "sctx'\<lparr>branchPosition := int m, pointer := Some (ad (take m k))\<rparr>
        = sctx\<lparr>branchPosition := int m, pointer := Some (ad (take m k))\<rparr>"
      by (simp add: sctx'_def)
    with fl' step have fl: "findLoop h s (int (length k)) sctx =
         Some (Inr (if take m k \<in> K then Matched else Unmatched,
                    sctx\<lparr>branchPosition := int m, pointer := Some (ad (take m k))\<rparr>))"
      by simp
    have c1: "j \<le> m" using m(1) by simp
    show ?thesis by (rule exI [of _ m]) (intro conjI c1 m(2-5) fl)
  qed
qed

subsection \<open>Attaching a child\<close>

lemma filter_update_Some:
  "x < length xs \<Longrightarrow> xs ! x = None \<Longrightarrow>
    length (filter (\<lambda>r. r \<noteq> None) (xs[x := Some a])) = Suc (length (filter (\<lambda>r. r \<noteq> None) xs))"
  by (induction xs arbitrary: x) (auto split: nat.splits)

lemma filter_update_None:
  "x < length xs \<Longrightarrow> xs ! x \<noteq> None \<Longrightarrow>
    Suc (length (filter (\<lambda>r. r \<noteq> None) (xs[x := None]))) = length (filter (\<lambda>r. r \<noteq> None) xs)"
  by (induction xs arbitrary: x) (auto split: nat.splits)

lemma occupied_update:
  assumes "x < length (children c)" "children c ! x = None"
  shows "occupied (c\<lparr>children := (children c)[x := Some a], numChildren := n\<rparr>) = Suc (occupied c)"
  using filter_update_Some [OF assms] by (simp add: occupied_def)

lemma occupied_replicate [simp]: "length (filter (\<lambda>r. r \<noteq> None) (replicate n None)) = 0"
  by simp

lemma shape_closed: "shape_ok h B ad IP K \<Longrightarrow> p @ [x] \<in> IP \<union> K \<Longrightarrow> p \<in> IP"
  unfolding shape_ok_def by blast

lemma shape_inj: "shape_ok h B ad IP K \<Longrightarrow> inj_on ad (IP \<union> K)"
  by (simp add: shape_ok_def)

lemma shape_digits: "shape_ok h B ad IP K \<Longrightarrow> p \<in> IP \<Longrightarrow> x \<in> set p \<Longrightarrow> 1 \<le> x \<and> x < B"
  unfolding shape_ok_def by blast

lemma shape_butlast_leaf:
  assumes "shape_ok h B ad IP K" "k \<in> K" shows "butlast k \<in> IP"
proof -
  have "k \<noteq> []" using shape_goodKey [OF assms] by (simp add: goodKey_def)
  then have "butlast k @ [last k] \<in> IP \<union> K" using assms(2) by simp
  then show ?thesis by (rule shape_closed [OF assms(1)])
qed

lemma shape_butlast_inner:
  assumes "shape_ok h B ad IP K" "p \<in> IP" "p \<noteq> []" shows "butlast p \<in> IP"
proof -
  have "butlast p @ [last p] \<in> IP \<union> K" using assms by simp
  then show ?thesis by (rule shape_closed [OF assms(1)])
qed

lemma inner_ok_child:
  "inner_ok h B ad N p \<Longrightarrow> x < B \<Longrightarrow>
     children (h ! ad p) ! x = (if p @ [x] \<in> N then Some (ad (p @ [x])) else None)"
  by (simp add: inner_ok_def)

lemma inner_ok_rest:
  assumes "inner_ok h B ad N p"
  shows "ad p < length h" "\<not> leaf (h ! ad p)" "length (children (h ! ad p)) = B"
    "parent (h ! ad p) = (if p = [] then None else Some (ad (butlast p)))"
    "numChildren (h ! ad p) = int (occupied (h ! ad p))" "isRoot (h ! ad p) = (p = [])"
  using assms by (simp_all add: inner_ok_def)

lemma inner_okI:
  assumes "a < length h" "\<not> leaf (h ! a)" "length (children (h ! a)) = B"
    "\<And>x. x < B \<Longrightarrow> children (h ! a) ! x = (if p @ [x] \<in> N then Some (ad (p @ [x])) else None)"
    "parent (h ! a) = (if p = [] then None else Some (ad (butlast p)))"
    "numChildren (h ! a) = int (occupied (h ! a))" "isRoot (h ! a) = (p = [])"
    "ad p = a"
  shows "inner_ok h B ad N p"
  using assms by (simp add: inner_ok_def)

lemma AddChild_shape:
  assumes sh: "shape_ok h B ad IP K"
    and pIP: "p \<in> IP" and xB: "x < B" and fresh: "p @ [x] \<notin> IP \<union> K"
    and a: "a < length h" "a \<notin> ad ` (IP \<union> K)"
    and c: "leaf (h ! a) = lf" "children (h ! a) = (if lf then [] else replicate B None)"
           "numChildren (h ! a) = 0" "\<not> isRoot (h ! a)" "\<not> isHead (h ! a)" "\<not> isTail (h ! a)"
    and q: "if lf then goodKey B (p @ [x]) else 1 \<le> x"
    and h': "h' = h[ad p := (h ! ad p)\<lparr>children := (children (h ! ad p))[x := Some a],
                      numChildren := numChildren (h ! ad p) + 1\<rparr>,
                   a := (h ! a)\<lparr>parent := Some (ad p)\<rparr>]"
  shows "AddChildWithIndexOf h (Some (ad p)) (int x) (Some a) = Inr (h', None)"
    and "shape_ok h' B (ad(p @ [x] := a)) (if lf then IP else insert (p @ [x]) IP)
           (if lf then insert (p @ [x]) K else K)"
proof -
  note io = shape_innerD [OF sh pIP]
  have adp: "ad p < length h" and lenc: "length (children (h ! ad p)) = B"
    and slot: "children (h ! ad p) ! x = None"
    using io xB fresh by (simp_all add: inner_ok_def)
  have ne: "a \<noteq> ad p" using a(2) pIP by blast
  show "AddChildWithIndexOf h (Some (ad p)) (int x) (Some a) = Inr (h', None)"
    using adp lenc slot xB ne a(1)
    by (simp add: AddChildWithIndexOf_def load_def andThen_def SetParent_def h' Let_def)
  define qq where "qq = p @ [x]"
  define ad' where "ad' = ad(qq := a)"
  define IP' where "IP' = (if lf then IP else insert qq IP)"
  define K' where "K' = (if lf then insert qq K else K)"
  have N': "IP' \<union> K' = insert qq (IP \<union> K)" by (auto simp: IP'_def K'_def)
  have qN: "qq \<notin> IP \<union> K" using fresh by (simp add: qq_def)
  have ad_old: "\<And>r. r \<in> IP \<union> K \<Longrightarrow> ad' r = ad r" using qN by (auto simp: ad'_def)
  have ad_q: "ad' qq = a" by (simp add: ad'_def)
  have ha: "h' ! a = (h ! a)\<lparr>parent := Some (ad p)\<rparr>" using a(1) by (simp add: h')
  have hp: "h' ! ad p = (h ! ad p)\<lparr>children := (children (h ! ad p))[x := Some a],
                      numChildren := numChildren (h ! ad p) + 1\<rparr>"
    using adp ne by (simp add: h')
  have hb: "\<And>b. b \<noteq> a \<Longrightarrow> b \<noteq> ad p \<Longrightarrow> h' ! b = h ! b" by (simp add: h')
  have len: "length h' = length h" by (simp add: h')
  have inj': "inj_on ad' (IP' \<union> K')"
  proof -
    have "inj_on ad' (IP \<union> K)" using shape_inj [OF sh] ad_old by (simp add: inj_on_def)
    moreover have "ad' qq \<notin> ad' ` (IP \<union> K)" using a(2) ad_old ad_q by force
    ultimately show ?thesis unfolding N' using qN by simp
  qed
  have closed': "\<forall>p' x'. p' @ [x'] \<in> IP' \<union> K' \<longrightarrow> p' \<in> IP'"
  proof (intro allI impI)
    fix p' x' assume "p' @ [x'] \<in> IP' \<union> K'"
    then have "p' @ [x'] = qq \<or> p' @ [x'] \<in> IP \<union> K" unfolding N' by simp
    then have "p' \<in> IP" using pIP shape_closed [OF sh] by (auto simp: qq_def)
    then show "p' \<in> IP'" by (simp add: IP'_def)
  qed
  have good': "\<forall>k\<in>K'. goodKey B k"
    using shape_goodKey [OF sh] q by (auto simp: K'_def qq_def)
  have digits': "\<forall>p'\<in>IP'. \<forall>y\<in>set p'. 1 \<le> y \<and> y < B"
    using shape_digits [OF sh] q xB pIP by (auto simp: IP'_def qq_def)
  have child_iff: "\<And>p' x'. p' \<in> IP \<Longrightarrow> p' \<noteq> p \<Longrightarrow> p' @ [x'] \<in> IP' \<union> K' \<longleftrightarrow> p' @ [x'] \<in> IP \<union> K"
    unfolding N' by (auto simp: qq_def)
  have inner_old: "inner_ok h' B ad' (IP' \<union> K') p'" if p': "p' \<in> IP" "p' \<noteq> p" for p'
  proof -
    note io' = shape_innerD [OF sh p'(1)]
    have "ad p' \<noteq> ad p" using shape_inj [OF sh] p' pIP by (auto simp: inj_on_def)
    moreover have "ad p' \<noteq> a" using a(2) p'(1) by blast
    ultimately have cell: "h' ! ad p' = h ! ad p'" using hb by simp
    have adp': "ad' p' = ad p'" using ad_old p'(1) by simp
    have ch: "children (h ! ad p') ! x' =
        (if p' @ [x'] \<in> IP' \<union> K' then Some (ad' (p' @ [x'])) else None)" if "x' < B" for x'
      using inner_ok_child [OF io' that] child_iff [OF p', of x'] ad_old [of "p' @ [x']"]
      by (simp del: Un_iff)
    have par: "parent (h ! ad p') = (if p' = [] then None else Some (ad' (butlast p')))"
      using shape_butlast_inner [OF sh p'(1)] ad_old [of "butlast p'"] inner_ok_rest(4) [OF io']
      by simp
    show ?thesis 
      using inner_ok_rest [OF io'] ch par
      by (intro inner_okI [where a = "ad p'"]) (simp_all add: cell len adp' del: Un_iff)
  qed
  have inner_p: "inner_ok h' B ad' (IP' \<union> K') p"
  proof -
    have adp': "ad' p = ad p" using ad_old pIP by simp
    have par: "parent (h ! ad p) = (if p = [] then None else Some (ad' (butlast p)))"
      using shape_butlast_inner [OF sh pIP] ad_old [of "butlast p"] inner_ok_rest(4) [OF io]
      by simp
    have ch: "children (h' ! ad p) ! x' =
        (if p @ [x'] \<in> IP' \<union> K' then Some (ad' (p @ [x'])) else None)" if "x' < B" for x'
    proof (cases "x' = x")
      case True
      then show ?thesis using lenc xB ad_q unfolding N' by (simp add: hp qq_def)
    next
      case False
      then have "p @ [x'] \<noteq> qq" by (simp add: qq_def)
      then show ?thesis using inner_ok_child [OF io that] False ad_old [of "p @ [x']"] unfolding N'
        by (simp add: hp del: Un_iff)
    qed
    have occ: "occupied (h' ! ad p) = Suc (occupied (h ! ad p))"
      unfolding hp using occupied_update [of x "h ! ad p"] lenc xB slot by simp
    have nc: "numChildren (h' ! ad p) = int (occupied (h' ! ad p))"
      using inner_ok_rest(5) [OF io] occ by (simp add: hp)
    show ?thesis
      using inner_ok_rest [OF io] ch par nc
      by (intro inner_okI [where a = "ad p"]) (simp_all add: len adp' hp del: Un_iff)
  qed
  have qne: "qq \<noteq> []" and bq: "butlast qq = p" by (simp_all add: qq_def)
  have inner_q: "inner_ok h' B ad' (IP' \<union> K') qq" if "\<not> lf"
  proof -
    have "\<And>x'. qq @ [x'] \<notin> IP' \<union> K'"
      unfolding N' using qN shape_closed [OF sh] by auto
    moreover have "ad' (butlast qq) = ad p" using ad_old pIP bq by simp
    ultimately show ?thesis using that c a(1) qne
      by (intro inner_okI [where a = a]) (simp_all add: ad_q ha len occupied_def del: Un_iff)
  qed
  have leaf_old: "leaf_ok h' ad' k" if k: "k \<in> K" for k
  proof -
    note lo = shape_leafD [OF sh k]
    have "ad k \<noteq> ad p" using shape_inj [OF sh] k pIP shape_disj [OF sh pIP] by (auto simp: inj_on_def)
    moreover have "ad k \<noteq> a" using a(2) k by blast
    ultimately have cell: "h' ! ad k = h ! ad k" using hb by simp
    have "ad' (butlast k) = ad (butlast k)" using shape_butlast_leaf [OF sh k] ad_old by simp
    then show ?thesis using lo ad_old [of k] k by (simp add: leaf_ok_def cell len)
  qed
  have leaf_q: "leaf_ok h' ad' qq" if "lf"
  proof -
    have "ad' (butlast qq) = ad p" using ad_old pIP bq by simp
    then show ?thesis using that c a(1) by (simp add: leaf_ok_def ad_q ha len)
  qed
  have inner_all: "\<forall>p'\<in>IP'. inner_ok h' B ad' (IP' \<union> K') p'"
  proof
    fix p' assume "p' \<in> IP'"
    then have "p' = p \<or> (p' \<in> IP \<and> p' \<noteq> p) \<or> (\<not> lf \<and> p' = qq)"
      by (auto simp: IP'_def split: if_splits)
    then show "inner_ok h' B ad' (IP' \<union> K') p'"
      using inner_old inner_p inner_q by blast
  qed
  have leaf_all: "\<forall>k\<in>K'. leaf_ok h' ad' k"
  proof
    fix k assume "k \<in> K'"
    then have "k \<in> K \<or> (lf \<and> k = qq)" by (auto simp: K'_def split: if_splits)
    then show "leaf_ok h' ad' k" using leaf_old leaf_q by blast
  qed
  have "shape_ok h' B ad' IP' K'"
    unfolding shape_ok_def by (intro conjI inj' closed' good' digits' inner_all leaf_all)
  then show "shape_ok h' B (ad(p @ [x] := a)) (if lf then IP else insert (p @ [x]) IP)
           (if lf then insert (p @ [x]) K else K)"
    unfolding ad'_def IP'_def K'_def qq_def .
qed

subsection \<open>Adding the nodes of a key\<close>

lemma shape_addr_lt: "shape_ok h B ad IP K \<Longrightarrow> r \<in> IP \<union> K \<Longrightarrow> ad r < length h"
  unfolding shape_ok_def inner_ok_def leaf_ok_def by blast

lemma shape_append:
  assumes sh: "shape_ok h B ad IP K"
  shows "shape_ok (h @ cs) B ad IP K"
proof -
  have lt: "\<And>r. r \<in> IP \<union> K \<Longrightarrow> ad r < length h" using shape_addr_lt [OF sh] .
  have "inner_ok (h @ cs) B ad (IP \<union> K) p" if "p \<in> IP" for p
    using shape_innerD [OF sh that] lt [of p] that
    by (simp add: inner_ok_def nth_append del: Un_iff)
  moreover have "leaf_ok (h @ cs) ad k" if "k \<in> K" for k
    using shape_leafD [OF sh that] lt [of k] that
    by (simp add: leaf_ok_def nth_append)
  ultimately show ?thesis using sh unfolding shape_ok_def by (simp del: Un_iff)
qed

lemma newInner_step: "Suc i < length k \<Longrightarrow> newInner k i = insert (take (Suc i) k) (newInner k (Suc i))"
  unfolding newInner_def
  by (auto simp: less_Suc_eq_le Suc_le_eq) (metis Suc_lessI)

lemma newInner_last: "Suc i \<ge> length k \<Longrightarrow> newInner k i = {}"
  unfolding newInner_def by auto

lemma grownD:
  assumes "grown h h' ad ad' IP N N'"
  shows "length h \<le> length h'" "\<And>r. r \<in> N \<Longrightarrow> ad' r = ad r"
    "\<And>r. r \<in> N' \<Longrightarrow> r \<notin> N \<Longrightarrow> length h \<le> ad' r"
    "\<And>a. a < length h \<Longrightarrow> a \<notin> ad ` IP \<Longrightarrow> h' ! a = h ! a"
  using assms unfolding grown_def by blast+

lemma grown_refl: "grown h h ad ad IP N N"
  by (simp add: grown_def)

declare addNodeLoop.simps [simp del]

declare scanLeft.simps [simp del]

lemma newNode_cell:
  "0 < B \<Longrightarrow> newNode (int B) = emptyCell\<lparr>children := replicate B None\<rparr>"
  by (simp add: newNode_def)

lemma addNodeLoop_shape:
  assumes gk: "goodKey B k" and ks: "k = key s" and asc: "\<forall>c\<in>set s. (of_char c :: nat) < 128"
    and cap: "capacity t0 = int B"
  shows "shape_ok (heap t) B ad IP K \<Longrightarrow> i < length k \<Longrightarrow> take i k \<in> IP \<Longrightarrow>
     (\<forall>j. i < j \<and> j \<le> length k \<longrightarrow> take j k \<notin> IP \<union> K) \<Longrightarrow>
     pointer sctx = Some (ad (take i k)) \<Longrightarrow> branchPosition sctx = int i \<Longrightarrow>
     capacity t = int B \<Longrightarrow>
     \<exists>h' ad'. addNodeLoop t s sctx =
          Inr (t\<lparr>heap := h'\<rparr>, sctx\<lparr>pointer := Some (ad' (take (length k - 1) k)),
                                    branchPosition := int (length k - 1)\<rparr>) \<and>
        shape_ok h' B ad' (IP \<union> newInner k i) K \<and>
        grown (heap t) h' ad ad' IP (IP \<union> K) (IP \<union> newInner k i \<union> K)"
proof (induction "length k - 1 - i" arbitrary: i t sctx ad IP)
  case 0
  then have il: "i = length k - 1" by simp
  have "\<not> branchPosition sctx < NumDigitsOf (digitizer t) s - 1"
    using 0 il ks by (simp add: NumDigitsOf_def)
  then have r: "addNodeLoop t s sctx = Inr (t, sctx)" by (subst addNodeLoop.simps) simp
  have e1: "t\<lparr>heap := heap t\<rparr> = t" by simp
  have e2: "sctx\<lparr>pointer := Some (ad (take (length k - 1) k)),
                 branchPosition := int (length k - 1)\<rparr> = sctx"
    using 0 il by simp
  have ni: "newInner k i = {}" using il by (intro newInner_last) simp
  have c1: "addNodeLoop t s sctx =
          Inr (t\<lparr>heap := heap t\<rparr>, sctx\<lparr>pointer := Some (ad (take (length k - 1) k)),
                                    branchPosition := int (length k - 1)\<rparr>)"
    using r e1 e2 by simp
  have c2: "shape_ok (heap t) B ad (IP \<union> newInner k i) K" using 0 ni by simp
  have c3: "grown (heap t) (heap t) ad ad IP (IP \<union> K) (IP \<union> newInner k i \<union> K)"
    using ni by (simp add: grown_def)
  show ?case by (intro exI [of _ "heap t"] exI [of _ ad] conjI c1 c2 c3)
next
  case (Suc n)
  then have il: "Suc i < length k" by simp
  define h where "h = heap t"
  define p where "p = take i k"
  define x where "x = k ! i"
  define a where "a = length h"
  define h1 where "h1 = h @ [newNode (int B)]"
  define h2 where "h2 = h1[ad p := (h1 ! ad p)\<lparr>children := (children (h1 ! ad p))[x := Some a],
                      numChildren := numChildren (h1 ! ad p) + 1\<rparr>,
                   a := (h1 ! a)\<lparr>parent := Some (ad p)\<rparr>]"
  define ad1 where "ad1 = ad(p @ [x] := a)"
  define IP1 where "IP1 = insert (p @ [x]) IP"
  define t1 where "t1 = t\<lparr>heap := h2\<rparr>"
  define sctx1 where "sctx1 = sctx\<lparr>pointer := Some a, branchPosition := branchPosition sctx + 1\<rparr>"
  have sh: "shape_ok h B ad IP K" using Suc.prems by (simp add: h_def)
  have B0: "0 < B" using gk by (simp add: goodKey_def)
  have tk: "take (Suc i) k = p @ [x]" using il by (simp add: p_def x_def take_Suc_snoc)
  have sh1: "shape_ok h1 B ad IP K" unfolding h1_def by (rule shape_append [OF sh])
  have pIP: "p \<in> IP" using Suc.prems by (simp add: p_def)
  have xB: "x < B" unfolding x_def using goodKey_nth [OF gk] il by simp
  have x1: "Suc 0 \<le> x" unfolding x_def using goodKey_nth_pos [OF gk, of i] il by simp
  have "i < Suc i \<and> Suc i \<le> length k" using il by simp
  then have "take (Suc i) k \<notin> IP \<union> K" using Suc.prems(4) by blast
  then have fresh: "p @ [x] \<notin> IP \<union> K" using tk by simp
  have a1: "a < length h1" by (simp add: a_def h1_def)
  have a2: "a \<notin> ad ` (IP \<union> K)"
  proof
    assume "a \<in> ad ` (IP \<union> K)"
    then obtain r where "r \<in> IP \<union> K" "a = ad r" by blast
    then show False using shape_addr_lt [OF sh, of r] by (simp add: a_def)
  qed
  have cell: "h1 ! a = emptyCell\<lparr>children := replicate B None\<rparr>"
    using newNode_cell [OF B0] by (simp add: h1_def a_def)
  note AC = AddChild_shape [OF sh1 pIP xB fresh a1 a2, where lf = False and h' = h2]
  have ac1: "AddChildWithIndexOf h1 (Some (ad p)) (int x) (Some a) = Inr (h2, None)"
    by (rule AC(1)) (simp_all add: cell emptyCell_def x1 h2_def)
  have sh2: "shape_ok h2 B ad1 IP1 K"
    using AC(2) by (simp add: cell emptyCell_def x1 h2_def ad1_def IP1_def)
  have dig: "DigitOf (digitizer t) s (branchPosition sctx) = Inr (int x)"
    using DigitOf_key [OF asc, where i = i] il ks Suc.prems by (simp add: x_def)
  have cond: "branchPosition sctx < NumDigitsOf (digitizer t) s - 1"
    using Suc.prems il ks by (simp add: NumDigitsOf_def)
  have al: "alloc (heap t) (newNode (capacity t)) = (h1, a)"
    using Suc.prems by (simp add: alloc_def h1_def a_def h_def)
  have ptr: "pointer sctx = Some (ad p)" using Suc.prems by (simp add: p_def)
  have step: "addNodeLoop t s sctx = addNodeLoop t1 s sctx1"
    using cond dig al ac1 ptr
    by (subst addNodeLoop.simps) (simp add: t1_def sctx1_def)
  have n: "n = length k - 1 - Suc i" using Suc.hyps by simp
  have q1: "shape_ok (heap t1) B ad1 IP1 K" using sh2 by (simp add: t1_def)
  have q3: "take (Suc i) k \<in> IP1" by (simp add: IP1_def tk)
  have q4: "\<forall>j. Suc i < j \<and> j \<le> length k \<longrightarrow> take j k \<notin> IP1 \<union> K"
  proof (intro allI impI)
    fix j assume j: "Suc i < j \<and> j \<le> length k"
    then have "take j k \<notin> IP \<union> K" using Suc.prems(4) by simp
    moreover have "length (take j k) \<noteq> length (take (Suc i) k)" using j il by simp
    then have "take j k \<noteq> p @ [x]" using tk by metis
    ultimately show "take j k \<notin> IP1 \<union> K" by (simp add: IP1_def)
  qed
  have q5: "pointer sctx1 = Some (ad1 (take (Suc i) k))" by (simp add: sctx1_def ad1_def tk)
  have q6: "branchPosition sctx1 = int (Suc i)" using Suc.prems by (simp add: sctx1_def)
  have q7: "capacity t1 = int B" using Suc.prems by (simp add: t1_def)
  from Suc.hyps(1) [OF n q1 il q3 q4 q5 q6 q7]
  obtain h' ad' where r: "addNodeLoop t1 s sctx1 =
          Inr (t1\<lparr>heap := h'\<rparr>, sctx1\<lparr>pointer := Some (ad' (take (length k - 1) k)),
                                    branchPosition := int (length k - 1)\<rparr>)"
     and sh': "shape_ok h' B ad' (IP1 \<union> newInner k (Suc i)) K"
     and gr: "grown (heap t1) h' ad1 ad' IP1 (IP1 \<union> K) (IP1 \<union> newInner k (Suc i) \<union> K)"
    by blast
  have sets: "IP1 \<union> newInner k (Suc i) = IP \<union> newInner k i"
    using newInner_step [OF il] tk by (auto simp: IP1_def)
  have c1: "addNodeLoop t s sctx =
          Inr (t\<lparr>heap := h'\<rparr>, sctx\<lparr>pointer := Some (ad' (take (length k - 1) k)),
                                    branchPosition := int (length k - 1)\<rparr>)"
    using step r by (simp add: t1_def sctx1_def)
  have c2: "shape_ok h' B ad' (IP \<union> newInner k i) K" using sh' sets by simp
  have len2: "length h2 = Suc (length h)" by (simp add: h2_def h1_def)
  have g1: "length (heap t) \<le> length h'" using grownD(1) [OF gr] len2 by (simp add: t1_def h_def)
  have g2: "\<forall>r\<in>IP \<union> K. ad' r = ad r"
  proof
    fix r assume r: "r \<in> IP \<union> K"
    then have "ad' r = ad1 r" using grownD(2) [OF gr, of r] by (simp add: IP1_def)
    moreover have "r \<noteq> p @ [x]" using r fresh by blast
    ultimately show "ad' r = ad r" by (simp add: ad1_def)
  qed
  have g3: "\<forall>r\<in>(IP \<union> newInner k i \<union> K) - (IP \<union> K). length (heap t) \<le> ad' r"
  proof
    fix r assume r: "r \<in> (IP \<union> newInner k i \<union> K) - (IP \<union> K)"
    show "length (heap t) \<le> ad' r"
    proof (cases "r = p @ [x]")
      case True
      then have "ad' r = ad1 r" using grownD(2) [OF gr, of r] by (simp add: IP1_def)
      then show ?thesis using True by (simp add: ad1_def a_def h_def)
    next
      case False
      then have "r \<in> (IP1 \<union> newInner k (Suc i) \<union> K)" "r \<notin> IP1 \<union> K"
        using r sets by (auto simp: IP1_def)
      then have "length (heap t1) \<le> ad' r" using grownD(3) [OF gr, of r] by blast
      then show ?thesis using len2 by (simp add: t1_def h_def)
    qed
  qed
  have g4: "\<forall>b<length (heap t). b \<notin> ad ` IP \<longrightarrow> h' ! b = heap t ! b"
  proof (intro allI impI)
    fix b assume b: "b < length (heap t)" "b \<notin> ad ` IP"
    have bp: "b \<noteq> ad p" using b(2) pIP by blast
    have ba: "b \<noteq> a" using b(1) by (simp add: a_def h_def)
    have "ad1 ` IP1 = insert a (ad ` IP)" using fresh by (auto simp: ad1_def IP1_def)
    then have "b \<notin> ad1 ` IP1" using b(2) ba by simp
    moreover have "b < length (heap t1)" using b(1) len2 by (simp add: t1_def h_def)
    ultimately have "h' ! b = h2 ! b" using grownD(4) [OF gr, of b] by (simp add: t1_def)
    also have "h2 ! b = h1 ! b" using bp ba by (simp add: h2_def)
    also have "h1 ! b = heap t ! b" using b(1) by (simp add: h1_def h_def nth_append)
    finally show "h' ! b = heap t ! b" .
  qed
  have c3: "grown (heap t) h' ad ad' IP (IP \<union> K) (IP \<union> newInner k i \<union> K)"
    unfolding grown_def by (intro conjI g1 g2 g3 g4)
  show ?case by (intro exI [of _ h'] exI [of _ ad'] conjI c1 c2 c3)
qed

lemma newInner_mem: "r \<in> newInner k m \<Longrightarrow> \<exists>j. m < j \<and> j < length k \<and> r = take j k"
  unfolding newInner_def by blast

lemma addNode_core:
  assumes sh: "shape_ok (heap t) B ad IP K" and gk: "goodKey B k" and ks: "k = key s"
    and asc: "\<forall>c\<in>set s. (of_char c :: nat) < 128"
    and cap: "capacity t = int B"
    and L: "L < length (heap t)" "L \<notin> ad ` (IP \<union> K)"
           "heap t ! L = newLeafNode\<lparr>element := Some s\<rparr>"
    and ptr: "pointer sctx = Some (ad (take m k))" and bp: "branchPosition sctx = int m"
    and m: "m < length k" "take m k \<in> IP"
    and fresh: "\<forall>j. m < j \<and> j \<le> length k \<longrightarrow> take j k \<notin> IP \<union> K"
  shows "\<exists>h' ad'. addNode t (Some L) sctx =
            Inr (t\<lparr>heap := h'\<rparr>, sctx\<lparr>pointer := Some L, branchPosition := int (length k)\<rparr>) \<and>
          shape_ok h' B ad' (IP \<union> newInner k m) (insert k K) \<and> ad' k = L \<and>
          (\<forall>r\<in>IP \<union> K. ad' r = ad r) \<and> length (heap t) \<le> length h' \<and>
          (\<forall>r\<in>newInner k m. length (heap t) \<le> ad' r) \<and>
          (\<forall>a<length (heap t). a \<notin> ad ` IP \<longrightarrow> a \<noteq> L \<longrightarrow> h' ! a = heap t ! a) \<and>
          h' ! L = (heap t ! L)\<lparr>parent := Some (ad' (butlast k))\<rparr>"
proof -
  from addNodeLoop_shape [OF gk ks asc cap sh m(1) m(2) fresh ptr bp cap]
  obtain h2 ad2 where r: "addNodeLoop t s sctx =
          Inr (t\<lparr>heap := h2\<rparr>, sctx\<lparr>pointer := Some (ad2 (take (length k - 1) k)),
                                    branchPosition := int (length k - 1)\<rparr>)"
     and sh2: "shape_ok h2 B ad2 (IP \<union> newInner k m) K"
     and gr: "grown (heap t) h2 ad ad2 IP (IP \<union> K) (IP \<union> newInner k m \<union> K)"
    by blast
  define p where "p = take (length k - 1) k"
  define IP2 where "IP2 = IP \<union> newInner k m"
  define h3 where "h3 = h2[ad2 p := (h2 ! ad2 p)\<lparr>children := (children (h2 ! ad2 p))[0 := Some L],
                      numChildren := numChildren (h2 ! ad2 p) + 1\<rparr>,
                   L := (h2 ! L)\<lparr>parent := Some (ad2 p)\<rparr>]"
  define ad3 where "ad3 = ad2(p @ [0] := L)"
  have kne: "k \<noteq> []" and last0: "last k = 0" and B0: "0 < B" using gk by (simp_all add: goodKey_def)
  have pb: "p = butlast k" by (simp add: p_def butlast_conv_take)
  have kp: "p @ [0] = k" using kne last0 pb by (metis append_butlast_last_id)
  have lk: "length k - 1 < length k" using kne by simp
  have k0: "k ! (length k - 1) = 0" using last0 kne by (simp add: last_conv_nth)
  have pIP2: "p \<in> IP2"
  proof (cases "m = length k - 1")
    case True
    then show ?thesis using m(2) by (simp add: p_def IP2_def)
  next
    case False
    then have "m < length k - 1" using m(1) by simp
    then have "p \<in> newInner k m" unfolding newInner_def p_def using lk by blast
    then show ?thesis by (simp add: IP2_def)
  qed
  have kK: "k \<notin> K" using fresh m(1) by (metis Un_iff le_refl take_all)
  have "k \<notin> IP2" using shape_no_zero [OF sh2, of k] goodKey_zero [OF gk] by (auto simp: IP2_def)
  then have fr: "p @ [0] \<notin> IP2 \<union> K" using kK kp by simp
  have L2: "L < length h2" using L(1) grownD(1) [OF gr] by simp
  have LnotIP: "L \<notin> ad ` IP" using L(2) by blast
  have cellL: "h2 ! L = heap t ! L" using grownD(4) [OF gr L(1) LnotIP] .
  have Lfresh: "L \<notin> ad2 ` (IP2 \<union> K)"
  proof
    assume "L \<in> ad2 ` (IP2 \<union> K)"
    then obtain r where r: "r \<in> IP2 \<union> K" "L = ad2 r" by blast
    show False
    proof (cases "r \<in> IP \<union> K")
      case True
      then have "ad2 r = ad r" using grownD(2) [OF gr] by simp
      then show False using L(2) True r(2) by blast
    next
      case False
      then have "length (heap t) \<le> ad2 r" using grownD(3) [OF gr, of r] r(1) by (simp add: IP2_def)
      then show False using L(1) r(2) by simp
    qed
  qed
  have sh2': "shape_ok h2 B ad2 IP2 K" using sh2 by (simp add: IP2_def)
  note AC = AddChild_shape [OF sh2' pIP2 B0 fr L2 Lfresh, where lf = True and h' = h3]
  have gkp: "goodKey B (p @ [0])" using gk kp by simp
  have ac1: "AddChildWithIndexOf h2 (Some (ad2 p)) (int 0) (Some L) = Inr (h3, None)"
    using gkp by (intro AC(1)) (simp_all add: cellL L(3) newLeafNode_def newNode_def emptyCell_def h3_def)
  have sh3: "shape_ok h3 B ad3 IP2 (insert k K)"
    using AC(2) gkp kp by (simp add: cellL L(3) newLeafNode_def newNode_def emptyCell_def h3_def ad3_def)
  have val: "Value (heap t) (Some L) = Inr (Some s)"
    using L(1,3) by (simp add: Value_def load_def andThen_def)
  have dig: "DigitOf (digitizer t) s (int (length k - 1)) = Inr 0"
    using DigitOf_key [OF asc, where i = "length k - 1"] ks k0 by simp
  have pn: "pointer sctx \<noteq> None" using ptr by simp
  have c1: "addNode t (Some L) sctx =
            Inr (t\<lparr>heap := h3\<rparr>, sctx\<lparr>pointer := Some L, branchPosition := int (length k)\<rparr>)"
    using val r dig ac1 kne
    by (simp add: addNode_def andThen_def asString_def p_def of_nat_diff Suc_leI ptr)
  have c3: "ad3 k = L" using kp by (simp add: ad3_def)
  have c4: "\<forall>r\<in>IP \<union> K. ad3 r = ad r"
  proof
    fix r assume r: "r \<in> IP \<union> K"
    then have "r \<noteq> k" using kK fr kp by (auto simp: IP2_def)
    then show "ad3 r = ad r" using grownD(2) [OF gr r] kp by (simp add: ad3_def)
  qed
  have c5: "length (heap t) \<le> length h3" using grownD(1) [OF gr] by (simp add: h3_def)
  have c6: "\<forall>r\<in>newInner k m. length (heap t) \<le> ad3 r"
  proof
    fix r assume r: "r \<in> newInner k m"
    then obtain j where j: "m < j" "j < length k" "r = take j k" using newInner_mem by blast
    then have "take j k \<notin> IP \<union> K" using fresh by simp
    then have "length (heap t) \<le> ad2 r" using grownD(3) [OF gr, of r] r j by simp
    moreover have "r \<noteq> k" using j by auto
    ultimately show "length (heap t) \<le> ad3 r" using kp by (simp add: ad3_def)
  qed
  have ad2p: "ad2 p < length h2" using shape_addr_lt [OF sh2', of p] pIP2 by simp
  have c7: "\<forall>a<length (heap t). a \<notin> ad ` IP \<longrightarrow> a \<noteq> L \<longrightarrow> h3 ! a = heap t ! a"
  proof (intro allI impI)
    fix a assume a: "a < length (heap t)" "a \<notin> ad ` IP" "a \<noteq> L"
    have "a \<noteq> ad2 p"
    proof (cases "p \<in> IP")
      case True
      then have "ad2 p = ad p" using grownD(2) [OF gr, of p] by simp
      then show ?thesis using a(2) True by blast
    next
      case False
      then have "p \<notin> IP \<union> K" using pIP2 shape_disj [OF sh2' pIP2] by simp
      then have "length (heap t) \<le> ad2 p" using grownD(3) [OF gr, of p] pIP2 by (simp add: IP2_def)
      then show ?thesis using a(1) by simp
    qed
    then have "h3 ! a = h2 ! a" using a(3) by (simp add: h3_def)
    then show "h3 ! a = heap t ! a" using grownD(4) [OF gr a(1) a(2)] by simp
  qed
  have neL: "ad2 p \<noteq> L" using Lfresh pIP2 by blast
  have "p \<noteq> k" using kp by (metis append_self_conv not_Cons_self2)
  then have "ad3 (butlast k) = ad2 p" using pb kp by (simp add: ad3_def)
  then have c8: "h3 ! L = (heap t ! L)\<lparr>parent := Some (ad3 (butlast k))\<rparr>"
    using L2 cellL by (simp add: h3_def)
  have c2: "shape_ok h3 B ad3 (IP \<union> newInner k m) (insert k K)" using sh3 by (simp add: IP2_def)
  show ?thesis by (intro exI [of _ h3] exI [of _ ad3] conjI c1 c2 c3 c4 c5 c6 c7 c8)
qed

subsection \<open>Finding the predecessor\<close>

lemma lex_first_diff:
  fixes a b :: "nat list"
  shows "take i a = take i b \<Longrightarrow> i < length a \<Longrightarrow> i < length b \<Longrightarrow> a ! i < b ! i \<Longrightarrow> a < b"
proof (induction i arbitrary: a b)
  case 0
  then show ?case by (cases a; cases b) auto
next
  case (Suc i)
  then show ?case by (cases a; cases b) auto
qed

lemma lex_less_diff:
  fixes a b :: "nat list"
  shows "a < b \<Longrightarrow> take (length a) b \<noteq> a \<Longrightarrow>
     \<exists>i. i < length a \<and> i < length b \<and> take i a = take i b \<and> a ! i < b ! i"
proof (induction a arbitrary: b)
  case Nil
  then show ?case by simp
next
  case (Cons x a)
  then obtain y b' where b: "b = y # b'" by (cases b) auto
  show ?case
  proof (cases "x < y")
    case True
    then show ?thesis using b by (intro exI [of _ 0]) simp
  next
    case False
    then have xy: "x = y" and ab: "a < b'" using Cons.prems(1) b by auto
    have "take (length a) b' \<noteq> a" using Cons.prems(2) b xy by simp
    from Cons.IH [OF ab this] obtain i where
      "i < length a" "i < length b'" "take i a = take i b'" "a ! i < b' ! i" by blast
    then show ?thesis using b xy by (intro exI [of _ "Suc i"]) simp
  qed
qed

lemma lowerSib_Some:
  "lowerSib N p n = Some x \<Longrightarrow> x < n \<and> p @ [x] \<in> N \<and> (\<forall>y. x < y \<and> y < n \<longrightarrow> p @ [y] \<notin> N)"
proof (induction n)
  case 0
  then show ?case by simp
next
  case (Suc n)
  then show ?case by (auto split: if_splits simp: less_Suc_eq)
qed

lemma lowerSib_None: "lowerSib N p n = None \<Longrightarrow> y < n \<Longrightarrow> p @ [y] \<notin> N"
  by (induction n) (auto split: if_splits simp: less_Suc_eq)

lemma lowerSib_exists: "y < n \<Longrightarrow> p @ [y] \<in> N \<Longrightarrow> \<exists>x. lowerSib N p n = Some x"
  using lowerSib_None by (cases "lowerSib N p n") auto

lemma scanLeft_inner:
  assumes io: "inner_ok h B ad N p" and ptr: "pointer s = Some (ad p)"
  shows "n \<le> B \<Longrightarrow> scanLeft h s (int n - 1) =
     (case lowerSib N p n of
        None \<Rightarrow> Inr (s, False)
      | Some x \<Rightarrow> Inr (s\<lparr>branchPosition := branchPosition s + 1,
                         pointer := Some (ad (p @ [x]))\<rparr>, True))"
proof (induction n)
  case 0
  show ?case by (subst scanLeft.simps) simp
next
  case (Suc n)
  then have nB: "n < B" by simp
  have e: "int (Suc n) - 1 = int n" by simp
  show ?case
  proof (cases "p @ [n] \<in> N")
    case True
    then show ?thesis unfolding e
      using descendToIndex_inner [OF io ptr nB]
      by (subst scanLeft.simps) (simp add: childNotFound_def)
  next
    case False
    then have "scanLeft h s (int n) = scanLeft h s (int n - 1)"
      using descendToIndex_inner [OF io ptr nB]
      by (subst scanLeft.simps) (simp add: childNotFound_def)
    then show ?thesis unfolding e using Suc False by simp
  qed
qed

lemma scanDown_inner:
  assumes io: "inner_ok h B ad N p" and ptr: "pointer s = Some (ad p)"
  shows "n \<le> B \<Longrightarrow> lowerSib N p n = Some x \<Longrightarrow> scanDown h s (int n - 1) =
     Some (Inr (s\<lparr>branchPosition := branchPosition s + 1, pointer := Some (ad (p @ [x]))\<rparr>))"
proof (induction n)
  case 0
  then show ?case by simp
next
  case (Suc n)
  then have nB: "n < B" by simp
  have e: "int (Suc n) - 1 = int n" by simp
  show ?case
  proof (cases "p @ [n] \<in> N")
    case True
    then show ?thesis unfolding e
      using descendToIndex_inner [OF io ptr nB] Suc.prems
      by (subst scanDown.simps) (simp add: childNotFound_def)
  next
    case False
    then have "scanDown h s (int n) = scanDown h s (int n - 1)"
      using descendToIndex_inner [OF io ptr nB]
      by (subst scanDown.simps) (simp add: childNotFound_def)
    then show ?thesis unfolding e using Suc False by simp
  qed
qed

lemma shape_paths: "shape_ok h B ad IP K \<Longrightarrow> paths_ok B IP K"
  by (simp add: shape_ok_def paths_ok_def)

lemma paths_closed: "paths_ok B IP K \<Longrightarrow> p @ [x] \<in> IP \<union> K \<Longrightarrow> p \<in> IP"
  unfolding paths_ok_def by blast

lemma paths_good: "paths_ok B IP K \<Longrightarrow> k \<in> K \<Longrightarrow> goodKey B k"
  unfolding paths_ok_def by blast

lemma paths_no_zero: "paths_ok B IP K \<Longrightarrow> p \<in> IP \<Longrightarrow> 0 \<notin> set p"
  unfolding paths_ok_def by fastforce

lemma paths_disj: "paths_ok B IP K \<Longrightarrow> p \<in> IP \<Longrightarrow> p \<notin> K"
  using paths_no_zero paths_good goodKey_zero by blast

lemma paths_child_lt:
  assumes "paths_ok B IP K" "p @ [x] \<in> IP \<union> K" shows "x < B"
proof (cases "p @ [x] \<in> K")
  case True
  then show ?thesis using goodKey_nth [OF paths_good [OF assms(1) True], of "length p"] by simp
next
  case False
  then have "p @ [x] \<in> IP" using assms(2) by simp
  then show ?thesis using assms(1) unfolding paths_ok_def by fastforce
qed

lemma paths_prefix:
  assumes po: "paths_ok B IP K" and r: "r \<in> IP \<union> K"
  shows "j < length r \<Longrightarrow> take j r \<in> IP"
proof (induction "length r - Suc j" arbitrary: j)
  case 0
  then have "take j r @ [r ! j] = r" by (metis Suc_lessI diff_is_0_eq' le_zero_eq less_imp_le_nat take_Suc_snoc take_all zero_less_diff order_refl)
  then show ?case using paths_closed [OF po, of "take j r" "r ! j"] r by simp
next
  case (Suc n)
  then have "Suc j < length r" by simp
  moreover have "n = length r - Suc (Suc j)" using Suc by simp
  ultimately have "take (Suc j) r \<in> IP" using Suc.hyps(1) by blast
  then have "take j r @ [r ! j] \<in> IP \<union> K" using Suc.prems by (simp add: take_Suc_snoc)
  then show ?case by (rule paths_closed [OF po])
qed

lemma paths_leaf_no_child:
  assumes "paths_ok B IP K" "q \<in> K" shows "lowerSib (IP \<union> K) q n = None"
proof (cases "lowerSib (IP \<union> K) q n")
  case (Some x)
  then have "q @ [x] \<in> IP \<union> K" using lowerSib_Some by blast
  then have "q \<in> IP" by (rule paths_closed [OF assms(1)])
  then show ?thesis using paths_disj [OF assms(1)] assms(2) by blast
qed simp

lemma key_prefix_eq:
  assumes po: "paths_ok B IP K" and q: "q \<in> K" and k: "k' \<in> K" and pre: "take (length q) k' = q"
  shows "k' = q"
proof -
  have "length q \<le> length k'" using pre by (metis length_take min.cobounded1 nat_le_linear take_all)
  from goodKey_take [OF paths_good [OF po k] _ this] pre paths_good [OF po q]
  have "length q = length k'" by simp
  then show ?thesis using pre by simp
qed

lemma maxDesc_spec:
  assumes po: "paths_ok B IP K"
    and nonempty: "\<forall>p\<in>IP. p \<noteq> [] \<longrightarrow> (\<exists>x. p @ [x] \<in> IP \<union> K)"
    and bound: "\<forall>r\<in>IP \<union> K. length r \<le> M"
  shows "q \<in> IP \<union> K \<Longrightarrow> q \<noteq> [] \<Longrightarrow> length q + n = M \<Longrightarrow>
     maxDesc (IP \<union> K) B n q \<in> K \<and> take (length q) (maxDesc (IP \<union> K) B n q) = q \<and>
     (\<forall>k'\<in>K. take (length q) k' = q \<longrightarrow> k' \<le> maxDesc (IP \<union> K) B n q)"
proof (induction n arbitrary: q)
  case 0
  have qK: "q \<in> K"
  proof (rule ccontr)
    assume "q \<notin> K"
    then have "q \<in> IP" using 0 by simp
    then obtain x where "q @ [x] \<in> IP \<union> K" using nonempty 0 by blast
    then have "length (q @ [x]) \<le> M" using bound by blast
    then show False using 0 by simp
  qed
  then show ?case using key_prefix_eq [OF po qK] by auto
next
  case (Suc n)
  show ?case
  proof (cases "q \<in> K")
    case True
    then show ?thesis using key_prefix_eq [OF po True] paths_leaf_no_child [OF po True] by auto
  next
    case False
    then have qIP: "q \<in> IP" using Suc.prems by simp
    then obtain y where y: "q @ [y] \<in> IP \<union> K" using nonempty Suc.prems by blast
    have "y < B" using paths_child_lt [OF po y] .
    then obtain x where x: "lowerSib (IP \<union> K) q B = Some x" using lowerSib_exists y by blast
    note xs = lowerSib_Some [OF x]
    define q' where "q' = maxDesc (IP \<union> K) B n (q @ [x])"
    have md: "maxDesc (IP \<union> K) B (Suc n) q = q'" using x by (simp add: q'_def)
    have "length (q @ [x]) + n = M" using Suc.prems by simp
    from Suc.IH [OF _ _ this] xs
    have ih: "q' \<in> K" "take (Suc (length q)) q' = q @ [x]"
      "\<forall>k'\<in>K. take (Suc (length q)) k' = q @ [x] \<longrightarrow> k' \<le> q'"
      by (simp_all add: q'_def)
    have lq': "length q < length q'" using ih(2)
      by (metis Suc_leI length_append_singleton length_take min.cobounded1 not_less_eq_eq not_le_imp_less take_all le_refl)
    have pre: "take (length q) q' = q" using ih(2) by (metis append_eq_conv_conj take_Suc_conv_app_nth lq' butlast_snoc butlast_take diff_Suc_1 length_take min.absorb2 less_imp_le_nat Suc_leI)
    have qx: "q' ! length q = x" using ih(2) lq' by (metis nth_append_length nth_take lessI)
    have mx: "k' \<le> q'" if k': "k' \<in> K" "take (length q) k' = q" for k'
    proof -
      have "k' \<noteq> q" using False k'(1) by blast
      then have lk: "length q < length k'" using k'(2) by (metis le_neq_implies_less length_take min.cobounded1 take_all nat_le_linear)
      have "take (Suc (length q)) k' = q @ [k' ! length q]" using lk k'(2) by (simp add: take_Suc_snoc)
      moreover have "take (Suc (length q)) k' \<in> IP \<union> K"
        using paths_prefix [OF po, of k' "Suc (length q)"] k'(1) lk
        by (cases "Suc (length q) < length k'") (auto simp: not_less)
      ultimately have ch: "q @ [k' ! length q] \<in> IP \<union> K" by simp
      have "k' ! length q < B" using paths_child_lt [OF po ch] .
      then have le: "k' ! length q \<le> x" using xs ch by (meson not_le_imp_less)
      show ?thesis
      proof (cases "k' ! length q = x")
        case True
        then show ?thesis using ih(3) k'(1) \<open>take (Suc (length q)) k' = q @ [k' ! length q]\<close> by simp
      next
        case False
        then have "k' ! length q < q' ! length q" using le qx by simp
        then have "k' < q'" using lex_first_diff [of "length q" k' q'] k'(2) pre lk lq' by simp
        then show ?thesis by simp
      qed
    qed
    show ?thesis unfolding md using ih(1) pre mx by blast
  qed
qed

lemma lastFork_spec:
  "(lastFork N k j = [] \<and> (\<forall>i\<le>j. noFork N k i)) \<or>
   (\<exists>i x. i \<le> j \<and> lastFork N k j = take i k @ [x] \<and> x < k ! i \<and> take i k @ [x] \<in> N \<and>
      (\<forall>y. x < y \<and> y < k ! i \<longrightarrow> take i k @ [y] \<notin> N) \<and>
      (\<forall>i'. i < i' \<and> i' \<le> j \<longrightarrow> noFork N k i'))"
proof (induction j)
  case 0
  show ?case
  proof (cases "lowerSib N [] (k ! 0)")
    case None
    then have "noFork N k 0" using lowerSib_None [OF None] by (simp add: noFork_def)
    then show ?thesis using None by simp
  next
    case (Some x)
    note xs = lowerSib_Some [OF Some]
    have "0 \<le> (0::nat) \<and> lastFork N k 0 = take 0 k @ [x] \<and> x < k ! 0 \<and> take 0 k @ [x] \<in> N \<and>
      (\<forall>y. x < y \<and> y < k ! 0 \<longrightarrow> take 0 k @ [y] \<notin> N) \<and>
      (\<forall>i'. 0 < i' \<and> i' \<le> 0 \<longrightarrow> noFork N k i')"
      using xs Some by auto
    then show ?thesis by blast
  qed
next
  case (Suc j)
  show ?case
  proof (cases "lowerSib N (take (Suc j) k) (k ! Suc j)")
    case None
    then have nf: "noFork N k (Suc j)" using lowerSib_None [OF None] by (simp add: noFork_def)
    have lf: "lastFork N k (Suc j) = lastFork N k j" using None by simp
    from Suc show ?thesis
    proof
      assume a: "lastFork N k j = [] \<and> (\<forall>i\<le>j. noFork N k i)"
      then have "\<forall>i\<le>Suc j. noFork N k i" using nf by (auto simp: le_Suc_eq)
      then show ?thesis using a lf by simp
    next
      assume "\<exists>i x. i \<le> j \<and> lastFork N k j = take i k @ [x] \<and> x < k ! i \<and> take i k @ [x] \<in> N \<and>
        (\<forall>y. x < y \<and> y < k ! i \<longrightarrow> take i k @ [y] \<notin> N) \<and>
        (\<forall>i'. i < i' \<and> i' \<le> j \<longrightarrow> noFork N k i')"
      then obtain i x where ix: "i \<le> j" "lastFork N k j = take i k @ [x]" "x < k ! i"
        "take i k @ [x] \<in> N" "\<forall>y. x < y \<and> y < k ! i \<longrightarrow> take i k @ [y] \<notin> N"
        "\<forall>i'. i < i' \<and> i' \<le> j \<longrightarrow> noFork N k i'" by blast
      have "\<forall>i'. i < i' \<and> i' \<le> Suc j \<longrightarrow> noFork N k i'" using ix(6) nf by (auto simp: le_Suc_eq)
      moreover have "i \<le> Suc j" using ix(1) by simp
      ultimately show ?thesis using ix(2-5) lf by metis
    qed
  next
    case (Some x)
    note xs = lowerSib_Some [OF Some]
    have "Suc j \<le> Suc j \<and> lastFork N k (Suc j) = take (Suc j) k @ [x] \<and> x < k ! Suc j \<and>
      take (Suc j) k @ [x] \<in> N \<and>
      (\<forall>y. x < y \<and> y < k ! Suc j \<longrightarrow> take (Suc j) k @ [y] \<notin> N) \<and>
      (\<forall>i'. Suc j < i' \<and> i' \<le> Suc j \<longrightarrow> noFork N k i')"
      using xs Some by auto
    then show ?thesis by blast
  qed
qed

lemma atRoot_inner:
  "inner_ok h B ad N p \<Longrightarrow> pointer s = Some (ad p) \<Longrightarrow> atRoot h s = Inr (p = [])"
  by (auto simp: inner_ok_def atRoot_def Parent_def load_def andThen_def)

lemma ascend_inner:
  "inner_ok h B ad N p \<Longrightarrow> pointer s = Some (ad p) \<Longrightarrow> p \<noteq> [] \<Longrightarrow>
   ascend h s = Inr (s\<lparr>branchPosition := branchPosition s - 1, pointer := Some (ad (butlast p))\<rparr>,
                     branchPosition s - 1)"
  by (simp add: inner_ok_def ascend_def Parent_def load_def andThen_def parentBranchPosition_def)

lemma atRoot_leaf:
  "leaf_ok h ad p \<Longrightarrow> pointer s = Some (ad p) \<Longrightarrow> atRoot h s = Inr False"
  by (auto simp: leaf_ok_def atRoot_def Parent_def load_def andThen_def)

lemma ascend_leaf:
  "leaf_ok h ad p \<Longrightarrow> pointer s = Some (ad p) \<Longrightarrow>
   ascend h s = Inr (s\<lparr>branchPosition := branchPosition s - 1, pointer := Some (ad (butlast p))\<rparr>,
                     branchPosition s - 1)"
  by (simp add: leaf_ok_def ascend_def Parent_def load_def andThen_def parentBranchPosition_def)

lemma retrace_inner:
  assumes sh: "shape_ok h B ad IP K" and gk: "goodKey B k" and ks: "k = key e"
    and asc: "\<forall>c\<in>set e. (of_char c :: nat) < 128"
    and pre: "\<forall>j<length k. take j k \<in> IP"
  shows "j < length k \<Longrightarrow> pointer s = Some (ad (take j k)) \<Longrightarrow> branchPosition s = int j \<Longrightarrow>
     retraceToLastLeftFork h s e =
       Some (Inr (s\<lparr>branchPosition := int (length (lastFork (IP \<union> K) k j)),
                    pointer := Some (ad (lastFork (IP \<union> K) k j))\<rparr>))"
proof (induction j arbitrary: s)
  case 0
  have io: "inner_ok h B ad (IP \<union> K) []" using shape_innerD [OF sh] pre 0 by force
  have ptr: "pointer s = Some (ad [])" using 0 by simp
  have nl: "\<not> atLeaf h s" using atLeaf_inner [OF io ptr] .
  have dig: "DigitOf (sdigitizer s) e (branchPosition s) = Inr (int (k ! 0))"
    using DigitOf_key [OF asc, where i = 0] ks 0 by simp
  have kB: "k ! 0 \<le> B" using goodKey_nth [OF gk 0(1)] by simp
  note sl = scanLeft_inner [OF io ptr kB]
  show ?case
  proof (cases "lowerSib (IP \<union> K) [] (k ! 0)")
    case None
    have e: "s\<lparr>branchPosition := int (length ([]::nat list)), pointer := Some (ad [])\<rparr> = s"
      using 0 by simp
    have "retraceToLastLeftFork h s e = Some (Inr s)"
      using nl dig sl None atRoot_inner [OF io ptr]
      by (subst retraceToLastLeftFork.simps) (simp add: andThen_def andThenO_def)
    then show ?thesis using None e by simp
  next
    case (Some x)
    have "retraceToLastLeftFork h s e =
       Some (Inr (s\<lparr>branchPosition := branchPosition s + 1, pointer := Some (ad ([] @ [x]))\<rparr>))"
      using nl dig sl Some
      by (subst retraceToLastLeftFork.simps) (simp add: andThen_def andThenO_def)
    then show ?thesis using Some 0 by simp
  qed
next
  case (Suc j)
  define p where "p = take (Suc j) k"
  have pIP: "p \<in> IP" using pre Suc.prems by (simp add: p_def)
  note io = shape_innerD [OF sh pIP]
  have ptr: "pointer s = Some (ad p)" using Suc.prems by (simp add: p_def)
  have nl: "\<not> atLeaf h s" using atLeaf_inner [OF io ptr] .
  have dig: "DigitOf (sdigitizer s) e (branchPosition s) = Inr (int (k ! Suc j))"
    using DigitOf_key [OF asc, where i = "Suc j"] ks Suc.prems by simp
  have kB: "k ! Suc j \<le> B" using goodKey_nth [OF gk Suc.prems(1)] by simp
  note sl = scanLeft_inner [OF io ptr kB]
  have pne: "p \<noteq> []" using Suc.prems by (auto simp: p_def)
  have bl: "butlast p = take j k" using Suc.prems by (simp add: p_def butlast_take)
  show ?case
  proof (cases "lowerSib (IP \<union> K) p (k ! Suc j)")
    case None
    define s2 where "s2 = s\<lparr>branchPosition := branchPosition s - 1, pointer := Some (ad (take j k))\<rparr>"
    have step: "retraceToLastLeftFork h s e = retraceToLastLeftFork h s2 e"
      using nl dig sl None atRoot_inner [OF io ptr] ascend_inner [OF io ptr pne] pne bl
      by (subst retraceToLastLeftFork.simps) (simp add: andThen_def andThenO_def s2_def)
    have "j < length k" using Suc.prems by simp
    moreover have "pointer s2 = Some (ad (take j k))" by (simp add: s2_def)
    moreover have "branchPosition s2 = int j" using Suc.prems by (simp add: s2_def)
    ultimately have "retraceToLastLeftFork h s2 e =
       Some (Inr (s2\<lparr>branchPosition := int (length (lastFork (IP \<union> K) k j)),
                    pointer := Some (ad (lastFork (IP \<union> K) k j))\<rparr>))"
      by (rule Suc.IH)
    moreover have "lastFork (IP \<union> K) k (Suc j) = lastFork (IP \<union> K) k j"
      using None by (simp add: p_def)
    ultimately show ?thesis using step by (simp add: s2_def)
  next
    case (Some x)
    have "retraceToLastLeftFork h s e =
       Some (Inr (s\<lparr>branchPosition := branchPosition s + 1, pointer := Some (ad (p @ [x]))\<rparr>))"
      using nl dig sl Some
      by (subst retraceToLastLeftFork.simps) (simp add: andThen_def andThenO_def)
    moreover have "lastFork (IP \<union> K) k (Suc j) = p @ [x]" using Some by (simp add: p_def)
    moreover have "length p = Suc j" using Suc.prems by (simp add: p_def)
    ultimately show ?thesis using Suc.prems by simp
  qed
qed

lemma retrace_leaf:
  assumes sh: "shape_ok h B ad IP K" and gk: "goodKey B k" and ks: "k = key e"
    and asc: "\<forall>c\<in>set e. (of_char c :: nat) < 128"
    and kK: "k \<in> K"
    and ptr: "pointer s = Some (ad k)" and bp: "branchPosition s = int (length k)"
  shows "retraceToLastLeftFork h s e =
       Some (Inr (s\<lparr>branchPosition := int (length (lastFork (IP \<union> K) k (length k - 1))),
                    pointer := Some (ad (lastFork (IP \<union> K) k (length k - 1)))\<rparr>))"
proof -
  note lo = shape_leafD [OF sh kK]
  have pre: "\<forall>j<length k. take j k \<in> IP"
    using paths_prefix [OF shape_paths [OF sh], of k] kK by simp
  define s2 where "s2 = s\<lparr>branchPosition := branchPosition s - 1, pointer := Some (ad (butlast k))\<rparr>"
  have kne: "k \<noteq> []" using gk by (simp add: goodKey_def)
  have step: "retraceToLastLeftFork h s e = retraceToLastLeftFork h s2 e"
    using atLeaf_leaf [OF lo ptr] atRoot_leaf [OF lo ptr] ascend_leaf [OF lo ptr]
    by (subst retraceToLastLeftFork.simps) (simp add: andThen_def andThenO_def s2_def)
  have "length k - 1 < length k" using kne by simp
  moreover have "pointer s2 = Some (ad (take (length k - 1) k))"
    by (simp add: s2_def butlast_conv_take)
  moreover have "branchPosition s2 = int (length k - 1)" using bp kne
    by (simp add: s2_def of_nat_diff Suc_leI)
  ultimately have "retraceToLastLeftFork h s2 e =
       Some (Inr (s2\<lparr>branchPosition := int (length (lastFork (IP \<union> K) k (length k - 1))),
                    pointer := Some (ad (lastFork (IP \<union> K) k (length k - 1)))\<rparr>))"
    by (rule retrace_inner [OF sh gk ks asc pre])
  then show ?thesis using step by (simp add: s2_def)
qed

lemma less_key_fork:
  assumes po: "paths_ok B IP K" and kK: "k \<in> K" and k': "k' \<in> K" and lt: "k' < k"
  shows "\<exists>i. i < length k \<and> i < length k' \<and> take i k' = take i k \<and> k' ! i < k ! i \<and>
             take i k @ [k' ! i] \<in> IP \<union> K"
proof -
  have "take (length k') k \<noteq> k'"
  proof
    assume "take (length k') k = k'"
    then have "k = k'" by (rule key_prefix_eq [OF po k' kK])
    then show False using lt by simp
  qed
  from lex_less_diff [OF lt this] obtain i where
    i: "i < length k'" "i < length k" "take i k' = take i k" "k' ! i < k ! i" by blast
  have "take (Suc i) k' \<in> IP \<union> K"
    using paths_prefix [OF po, of k' "Suc i"] k' i(1)
    by (cases "Suc i < length k'") (auto simp: not_less)
  then have "take i k @ [k' ! i] \<in> IP \<union> K" using i(1,3) by (simp add: take_Suc_snoc)
  then show ?thesis using i by blast
qed

lemma lastFork_none:
  assumes po: "paths_ok B IP K" and kK: "k \<in> K"
    and q: "lastFork (IP \<union> K) k (length k - 1) = []" and k': "k' \<in> K"
  shows "\<not> k' < k"
proof
  assume "k' < k"
  from less_key_fork [OF po kK k' this] obtain i where
    i: "i < length k" "k' ! i < k ! i" "take i k @ [k' ! i] \<in> IP \<union> K" by blast
  then have nf: "\<not> noFork (IP \<union> K) k i" unfolding noFork_def by blast
  have "i \<le> length k - 1" using i(1) by simp
  then show False using lastFork_spec [of "IP \<union> K" k "length k - 1"] q nf by auto
qed

lemma lastFork_pred:
  assumes po: "paths_ok B IP K"
    and nonempty: "\<forall>p\<in>IP. p \<noteq> [] \<longrightarrow> (\<exists>x. p @ [x] \<in> IP \<union> K)"
    and bound: "\<forall>r\<in>IP \<union> K. length r \<le> M"
    and kK: "k \<in> K"
    and q: "lastFork (IP \<union> K) k (length k - 1) = q" and qne: "q \<noteq> []"
    and q': "q' = maxDesc (IP \<union> K) B (M - length q) q"
  shows "q \<in> IP \<union> K \<and> q' \<in> K \<and> q' < k \<and> (\<forall>k'\<in>K. k' < k \<longrightarrow> k' \<le> q')"
proof -
  from lastFork_spec [of "IP \<union> K" k "length k - 1"] q qne
  obtain i0 x where ix: "i0 \<le> length k - 1" "q = take i0 k @ [x]" "x < k ! i0"
      "take i0 k @ [x] \<in> IP \<union> K"
      "\<forall>y. x < y \<and> y < k ! i0 \<longrightarrow> take i0 k @ [y] \<notin> IP \<union> K"
      "\<forall>i'. i0 < i' \<and> i' \<le> length k - 1 \<longrightarrow> noFork (IP \<union> K) k i'"
    by auto
  have kne: "k \<noteq> []" using paths_good [OF po kK] by (simp add: goodKey_def)
  have i0k: "i0 < length k" using ix(1) kne by (simp add: Suc_le_eq [symmetric] less_Suc_eq_le flip: length_greater_0_conv) 
  have qN: "q \<in> IP \<union> K" using ix by simp
  have lq: "length q = Suc i0" using ix(2) i0k by simp
  have "length q \<le> M" using bound qN by blast
  then have "length q + (M - length q) = M" by simp
  from maxDesc_spec [OF po nonempty bound qN qne this]
  have md: "q' \<in> K" "take (length q) q' = q" "\<forall>k'\<in>K. take (length q) k' = q \<longrightarrow> k' \<le> q'"
    by (simp_all add: q')
  have lq': "Suc i0 \<le> length q'" using md(2) lq by (metis length_take min.cobounded1)
  have tq: "take i0 q' = take i0 k"
  proof -
    have "take i0 q' = take i0 (take (Suc i0) q')" by simp
    also have "\<dots> = take i0 (take i0 k @ [x])" using md(2) lq ix(2) by simp
    also have "\<dots> = take i0 k" using i0k by simp
    finally show ?thesis .
  qed
  have qx: "q' ! i0 = x"
  proof -
    have "q' ! i0 = take (Suc i0) q' ! i0" by simp
    also have "\<dots> = (take i0 k @ [x]) ! i0" using md(2) lq ix(2) by simp
    also have "\<dots> = x" using i0k by (simp add: nth_append)
    finally show ?thesis .
  qed
  have lt: "q' < k" using lex_first_diff [of i0 q' k] tq qx ix(3) i0k lq' by simp
  have mx: "k' \<le> q'" if k': "k' \<in> K" "k' < k" for k'
  proof -
    from less_key_fork [OF po kK k'] obtain i where
      i: "i < length k" "i < length k'" "take i k' = take i k" "k' ! i < k ! i"
         "take i k @ [k' ! i] \<in> IP \<union> K" by blast
    then have nf: "\<not> noFork (IP \<union> K) k i" unfolding noFork_def by blast
    have "i \<le> length k - 1" using i(1) by simp
    then have ii0: "i \<le> i0" using ix(6) nf by (meson not_le_imp_less)
    show ?thesis
    proof (cases "i < i0")
      case True
      have "take i q' = take i (take i0 q')" using True by (simp add: min_def)
      also have "\<dots> = take i k" using tq True by (simp add: min_def)
      finally have a: "take i k' = take i q'" using i(3) by simp
      have "q' ! i = take i0 q' ! i" using True by simp
      also have "\<dots> = k ! i" using tq True by simp
      finally have "k' ! i < q' ! i" using i(4) by simp
      then have "k' < q'" using lex_first_diff [of i k' q'] a i(2) True lq' by simp
      then show ?thesis by simp
    next
      case False
      then have e: "i = i0" using ii0 by simp
      have le: "k' ! i0 \<le> x" using ix(5) i(4,5) e by (meson not_le_imp_less)
      show ?thesis
      proof (cases "k' ! i0 = x")
        case True
        then have "take (length q) k' = q" using i(2,3) e lq ix(2) by (simp add: take_Suc_snoc)
        then show ?thesis using md(3) k'(1) by blast
      next
        case False
        then have "k' ! i0 < q' ! i0" using le qx by simp
        then have "k' < q'" using lex_first_diff [of i0 k' q'] i(2,3) e tq lq' by simp
        then show ?thesis by simp
      qed
    qed
  qed
  show ?thesis using qN md(1) lt mx by blast
qed

lemma moveToMax_shape:
  assumes sh: "shape_ok h B ad IP K"
    and nonempty: "\<forall>p\<in>IP. p \<noteq> [] \<longrightarrow> (\<exists>x. p @ [x] \<in> IP \<union> K)"
    and bound: "\<forall>r\<in>IP \<union> K. length r \<le> M"
  shows "q \<in> IP \<union> K \<Longrightarrow> q \<noteq> [] \<Longrightarrow> length q + n = M \<Longrightarrow> pointer s = Some (ad q) \<Longrightarrow>
     branchPosition s = int (length q) \<Longrightarrow> Base (sdigitizer s) = int B \<Longrightarrow>
     moveToMaxDescendant h s =
       Some (Inr (s\<lparr>branchPosition := int (length (maxDesc (IP \<union> K) B n q)),
                    pointer := Some (ad (maxDesc (IP \<union> K) B n q))\<rparr>))"
proof (induction n arbitrary: q s)
  case 0
  have qK: "q \<in> K"
  proof (rule ccontr)
    assume "q \<notin> K"
    then have "q \<in> IP" using 0 by simp
    then obtain x where "q @ [x] \<in> IP \<union> K" using nonempty 0 by blast
    then have "length (q @ [x]) \<le> M" using bound by blast
    then show False using 0 by simp
  qed
  have "moveToMaxDescendant h s = Some (Inr s)"
    using atLeaf_leaf [OF shape_leafD [OF sh qK] 0(4)]
    by (subst moveToMaxDescendant.simps) simp
  moreover have "s\<lparr>branchPosition := int (length q), pointer := Some (ad q)\<rparr> = s"
    using 0 by simp
  ultimately show ?case by simp
next
  case (Suc n)
  note po = shape_paths [OF sh]
  show ?case
  proof (cases "q \<in> K")
    case True
    have "moveToMaxDescendant h s = Some (Inr s)"
      using atLeaf_leaf [OF shape_leafD [OF sh True] Suc.prems(4)]
      by (subst moveToMaxDescendant.simps) simp
    moreover have "s\<lparr>branchPosition := int (length q), pointer := Some (ad q)\<rparr> = s"
      using Suc.prems by simp
    moreover have "maxDesc (IP \<union> K) B (Suc n) q = q"
      using paths_leaf_no_child [OF po True] by simp
    ultimately show ?thesis by simp
  next
    case False
    then have qIP: "q \<in> IP" using Suc.prems by simp
    note io = shape_innerD [OF sh qIP]
    then obtain y where y: "q @ [y] \<in> IP \<union> K" using nonempty Suc.prems qIP by blast
    have "y < B" using paths_child_lt [OF po y] .
    then obtain x where x: "lowerSib (IP \<union> K) q B = Some x" using lowerSib_exists y by blast
    note xs = lowerSib_Some [OF x]
    define s1 where "s1 = s\<lparr>branchPosition := branchPosition s + 1, pointer := Some (ad (q @ [x]))\<rparr>"
    have sd: "scanDown h s (int B - 1) = Some (Inr s1)"
      using scanDown_inner [OF io Suc.prems(4) le_refl x] by (simp add: s1_def)
    have step: "moveToMaxDescendant h s = moveToMaxDescendant h s1"
      using atLeaf_inner [OF io Suc.prems(4)] sd Suc.prems(6)
      by (subst moveToMaxDescendant.simps) (simp add: andThenO_def)
    have "q @ [x] \<in> IP \<union> K" using xs by simp
    moreover have "q @ [x] \<noteq> []" by simp
    moreover have "length (q @ [x]) + n = M" using Suc.prems by simp
    moreover have "pointer s1 = Some (ad (q @ [x]))" by (simp add: s1_def)
    moreover have "branchPosition s1 = int (length (q @ [x]))" using Suc.prems by (simp add: s1_def)
    moreover have "Base (sdigitizer s1) = int B" using Suc.prems by (simp add: s1_def)
    ultimately have "moveToMaxDescendant h s1 =
       Some (Inr (s1\<lparr>branchPosition := int (length (maxDesc (IP \<union> K) B n (q @ [x]))),
                    pointer := Some (ad (maxDesc (IP \<union> K) B n (q @ [x])))\<rparr>))"
      by (rule Suc.IH)
    moreover have "maxDesc (IP \<union> K) B (Suc n) q = maxDesc (IP \<union> K) B n (q @ [x])"
      using x by simp
    ultimately show ?thesis using step by (simp add: s1_def)
  qed
qed

lemma moveToPredecessor_leaf:
  assumes sh: "shape_ok (heap t) B ad IP K"
    and nonempty: "\<forall>p\<in>IP. p \<noteq> [] \<longrightarrow> (\<exists>x. p @ [x] \<in> IP \<union> K)"
    and bound: "\<forall>r\<in>IP \<union> K. length r \<le> M"
    and gk: "goodKey B k" and ks: "k = key e" and asc: "\<forall>c\<in>set e. (of_char c :: nat) < 128"
    and kK: "k \<in> K"
    and ptr: "pointer s = Some (ad k)" and bp: "branchPosition s = int (length k)"
    and dg: "Base (sdigitizer s) = int B"
  shows "(\<exists>s'. moveToPredecessor t e s Matched = Some (Inr (False, s')) \<and> (\<forall>k'\<in>K. \<not> k' < k)) \<or>
         (\<exists>s' q'. moveToPredecessor t e s Matched = Some (Inr (True, s')) \<and>
             pointer s' = Some (ad q') \<and> q' \<in> K \<and> q' < k \<and> (\<forall>k'\<in>K. k' < k \<longrightarrow> k' \<le> q'))"
proof -
  note po = shape_paths [OF sh]
  define q where "q = lastFork (IP \<union> K) k (length k - 1)"
  define s1 where "s1 = s\<lparr>branchPosition := int (length q), pointer := Some (ad q)\<rparr>"
  have rt: "retraceToLastLeftFork (heap t) s e = Some (Inr s1)"
    using retrace_leaf [OF sh gk ks asc kK ptr bp] by (simp add: q_def s1_def)
  have al: "atLeaf (heap t) s" using atLeaf_leaf [OF shape_leafD [OF sh kK] ptr] .
  have mp: "moveToPredecessor t e s Matched =
     andThenO (Some (atRoot (heap t) s1)) (\<lambda>r.
          if r then Some (Inr (False, s1))
          else if \<not> atLeaf (heap t) s1
               then andThenO (moveToMaxDescendant (heap t) s1) (\<lambda>s2. Some (Inr (True, s2)))
               else Some (Inr (True, s1)))"
    using rt by (simp add: moveToPredecessor_def andThenO_def)
  have p1: "pointer s1 = Some (ad q)" by (simp add: s1_def)
  show ?thesis
  proof (cases "q = []")
    case True
    have "[] \<in> IP" using paths_prefix [OF po, of k 0] kK gk by (auto simp: goodKey_def)
    then have "atRoot (heap t) s1 = Inr True"
      using atRoot_inner [OF shape_innerD [OF sh], of "[]" s1] p1 True by simp
    then have "moveToPredecessor t e s Matched = Some (Inr (False, s1))"
      using mp by (simp add: andThenO_def)
    moreover have "lastFork (IP \<union> K) k (length k - 1) = []" using True by (simp add: q_def)
    then have "\<forall>k'\<in>K. \<not> k' < k" using lastFork_none [OF po kK] by blast
    ultimately show ?thesis by blast
  next
    case False
    define q' where "q' = maxDesc (IP \<union> K) B (M - length q) q"
    from lastFork_pred [OF po nonempty bound kK q_def [symmetric] False q'_def]
    have pr: "q \<in> IP \<union> K" "q' \<in> K" "q' < k" "\<forall>k'\<in>K. k' < k \<longrightarrow> k' \<le> q'" by blast+
    have nr: "atRoot (heap t) s1 = Inr False"
    proof (cases "q \<in> K")
      case True
      then show ?thesis using atRoot_leaf [OF shape_leafD [OF sh True] p1] by simp
    next
      case nK: False
      then have "q \<in> IP" using pr(1) by simp
      then show ?thesis using atRoot_inner [OF shape_innerD [OF sh], of q s1] p1 False by simp
    qed
    have "length q \<le> M" using bound pr(1) by blast
    then have lm: "length q + (M - length q) = M" by simp
    have b1: "branchPosition s1 = int (length q)" by (simp add: s1_def)
    have d1: "Base (sdigitizer s1) = int B" using dg by (simp add: s1_def)
    define s2 where "s2 = s1\<lparr>branchPosition := int (length q'), pointer := Some (ad q')\<rparr>"
    have mm: "moveToMaxDescendant (heap t) s1 = Some (Inr s2)"
      using moveToMax_shape [OF sh nonempty bound pr(1) False lm p1 b1 d1]
      by (simp add: s2_def q'_def)
    have "\<exists>s'. moveToPredecessor t e s Matched = Some (Inr (True, s')) \<and> pointer s' = Some (ad q')"
    proof (cases "atLeaf (heap t) s1")
      case True
      then have qK: "q \<in> K" using atLeaf_inner [OF shape_innerD [OF sh], of q s1] p1 pr(1) by blast
      then have "q' = q" unfolding q'_def
        using paths_leaf_no_child [OF po qK] by (cases "M - length q") simp_all
      moreover have "moveToPredecessor t e s Matched = Some (Inr (True, s1))"
        using mp nr True by (simp add: andThenO_def)
      ultimately show ?thesis using p1 by blast
    next
      case False
      then have "moveToPredecessor t e s Matched = Some (Inr (True, s2))"
        using mp nr mm by (simp add: andThenO_def)
      moreover have "pointer s2 = Some (ad q')" by (simp add: s2_def)
      ultimately show ?thesis by blast
    qed
    then show ?thesis using pr by blast
  qed
qed

subsection \<open>Splicing a leaf into the list\<close>

lemma links_app: "links h (xs @ m # ys) \<longleftrightarrow> links h (xs @ [m]) \<and> links h (m # ys)"
proof (induction xs rule: links.induct)
  case (1 h a b r)
  then show ?case by auto
next
  case (2 h a)
  then show ?case by (cases ys) auto
next
  case (3 h)
  then show ?case by simp
qed

lemma links_frame:
  "links h xs \<Longrightarrow> (\<forall>c\<in>set (butlast xs). nxt (h' ! c) = nxt (h ! c)) \<Longrightarrow>
   (\<forall>c\<in>set (tl xs). previous (h' ! c) = previous (h ! c)) \<Longrightarrow> links h' xs"
proof (induction xs rule: links.induct)
  case (1 h a b r)
  then show ?case by auto
qed simp_all

lemma sameButLinks_fields:
  assumes "sameButLinks h h'" "a < length h"
  shows "leaf (h' ! a) = leaf (h ! a)" "parent (h' ! a) = parent (h ! a)"
    "children (h' ! a) = children (h ! a)" "numChildren (h' ! a) = numChildren (h ! a)"
    "element (h' ! a) = element (h ! a)" "isRoot (h' ! a) = isRoot (h ! a)"
    "isHead (h' ! a) = isHead (h ! a)" "isTail (h' ! a) = isTail (h ! a)"
proof -
  have e: "(h' ! a)\<lparr>nxt := nxt (h ! a), previous := previous (h ! a)\<rparr> = h ! a"
    using assms by (simp add: sameButLinks_def)
  show "leaf (h' ! a) = leaf (h ! a)" using arg_cong [OF e, of leaf] by simp
  show "parent (h' ! a) = parent (h ! a)" using arg_cong [OF e, of parent] by simp
  show "children (h' ! a) = children (h ! a)" using arg_cong [OF e, of children] by simp
  show "numChildren (h' ! a) = numChildren (h ! a)" using arg_cong [OF e, of numChildren] by simp
  show "element (h' ! a) = element (h ! a)" using arg_cong [OF e, of element] by simp
  show "isRoot (h' ! a) = isRoot (h ! a)" using arg_cong [OF e, of isRoot] by simp
  show "isHead (h' ! a) = isHead (h ! a)" using arg_cong [OF e, of isHead] by simp
  show "isTail (h' ! a) = isTail (h ! a)" using arg_cong [OF e, of isTail] by simp
qed

lemma sameButLinks_shape:
  assumes sb: "sameButLinks h h'" and sh: "shape_ok h B ad IP K"
  shows "shape_ok h' B ad IP K"
proof -
  have len: "length h' = length h" using sb by (simp add: sameButLinks_def)
  have "inner_ok h' B ad (IP \<union> K) p" if "p \<in> IP" for p
  proof -
    note io = shape_innerD [OF sh that]
    have lt: "ad p < length h" using io by (simp add: inner_ok_def)
    show ?thesis using io sameButLinks_fields [OF sb lt]
      by (simp add: inner_ok_def len occupied_def del: Un_iff)
  qed
  moreover have "leaf_ok h' ad k" if "k \<in> K" for k
  proof -
    note lo = shape_leafD [OF sh that]
    have lt: "ad k < length h" using lo by (simp add: leaf_ok_def)
    show ?thesis using lo sameButLinks_fields [OF sb lt]
      by (simp add: leaf_ok_def len)
  qed
  ultimately show ?thesis using sh unfolding shape_ok_def by (simp del: Un_iff)
qed

lemma AddAfter_splice:
  assumes lA: "links h (A @ [pa])" and nx: "nxt (h ! pa) = Some nx" and lR: "links h (nx # R)"
    and dist: "distinct (A @ pa # nx # R)" and l: "l \<notin> set (A @ pa # nx # R)"
    and lens: "l < length h" "pa < length h" "nx < length h"
  shows "\<exists>h'. AddAfter h (Some l) (Some pa) = Inr h' \<and> sameButLinks h h' \<and>
           links h' (A @ pa # l # nx # R) \<and> (\<forall>a. a \<noteq> l \<and> a \<noteq> pa \<and> a \<noteq> nx \<longrightarrow> h' ! a = h ! a)"
proof -
  define h' where "h' = h[l := (h ! l)\<lparr>nxt := Some nx\<rparr>,
                          pa := (h ! pa)\<lparr>nxt := Some l\<rparr>,
                          l := (h ! l)\<lparr>nxt := Some nx, previous := Some pa\<rparr>,
                          nx := (h ! nx)\<lparr>previous := Some l\<rparr>]"
  have ne: "l \<noteq> pa" "l \<noteq> nx" "pa \<noteq> nx" using dist l by auto
  have n1: "Next h (Some pa) = Inr (Some nx)" using nx lens by (simp add: Next_def load_def andThen_def)
  define h1 where "h1 = h[l := (h ! l)\<lparr>nxt := Some nx\<rparr>]"
  have s1: "SetNext h (Some l) (Some nx) = Inr h1"
    using lens by (simp add: SetNext_def load_def andThen_def h1_def)
  define h2 where "h2 = h1[pa := (h ! pa)\<lparr>nxt := Some l\<rparr>]"
  have s2: "SetNext h1 (Some pa) (Some l) = Inr h2"
    using lens ne by (simp add: SetNext_def load_def andThen_def h1_def h2_def)
  define h3 where "h3 = h2[l := (h ! l)\<lparr>nxt := Some nx, previous := Some pa\<rparr>]"
  have s3: "SetPrevious h2 (Some l) (Some pa) = Inr h3"
    using lens ne by (simp add: SetPrevious_def load_def andThen_def h1_def h2_def h3_def)
  have n2: "Next h3 (Some l) = Inr (Some nx)"
    using lens by (simp add: Next_def load_def andThen_def h1_def h2_def h3_def)
  have s4: "SetPrevious h3 (Some nx) (Some l) = Inr h'"
    using lens ne by (simp add: SetPrevious_def load_def andThen_def h1_def h2_def h3_def h'_def)
  have r: "AddAfter h (Some l) (Some pa) = Inr h'"
    unfolding AddAfter_def by (simp add: n1 s1 s2 s3 n2 s4 andThen_def)
  have cl: "h' ! l = (h ! l)\<lparr>nxt := Some nx, previous := Some pa\<rparr>"
    using lens ne by (simp add: h'_def)
  have cp: "h' ! pa = (h ! pa)\<lparr>nxt := Some l\<rparr>"
    using lens ne by (simp add: h'_def)
  have cn: "h' ! nx = (h ! nx)\<lparr>previous := Some l\<rparr>"
    using lens ne by (simp add: h'_def)
  have co: "\<And>a. a \<noteq> l \<Longrightarrow> a \<noteq> pa \<Longrightarrow> a \<noteq> nx \<Longrightarrow> h' ! a = h ! a"
    by (simp add: h'_def)
  have len: "length h' = length h" by (simp add: h'_def)
  have sb: "sameButLinks h h'"
    unfolding sameButLinks_def
  proof (intro conjI allI impI len)
    fix a assume "a < length h"
    consider "a = l" | "a = pa" | "a = nx" | "a \<noteq> l" "a \<noteq> pa" "a \<noteq> nx" by blast
    then show "(h' ! a)\<lparr>nxt := nxt (h ! a), previous := previous (h ! a)\<rparr> = h ! a"
    proof cases
      case 1 then show ?thesis by (simp add: cl)
    next
      case 2 then show ?thesis by (simp add: cp)
    next
      case 3 then show ?thesis by (simp add: cn)
    next
      case 4 then show ?thesis by (simp add: co)
    qed
  qed
  have l1: "links h' (A @ [pa])"
  proof (rule links_frame [OF lA])
    show "\<forall>c\<in>set (butlast (A @ [pa])). nxt (h' ! c) = nxt (h ! c)"
    proof
      fix c assume "c \<in> set (butlast (A @ [pa]))"
      then have "c \<in> set A" by simp
      then have "c \<noteq> l" "c \<noteq> pa" "c \<noteq> nx" using dist l by auto
      then show "nxt (h' ! c) = nxt (h ! c)" using co [of c] by simp
    qed
    show "\<forall>c\<in>set (tl (A @ [pa])). previous (h' ! c) = previous (h ! c)"
    proof
      fix c assume "c \<in> set (tl (A @ [pa]))"
      then have c: "c \<in> set A \<or> c = pa" by (cases A) auto
      then have "c \<noteq> l" "c \<noteq> nx" using dist l by auto
      then show "previous (h' ! c) = previous (h ! c)" using co [of c] cp by (cases "c = pa") simp_all
    qed
  qed
  have l2: "links h' (nx # R)"
  proof (rule links_frame [OF lR])
    show "\<forall>c\<in>set (butlast (nx # R)). nxt (h' ! c) = nxt (h ! c)"
    proof
      fix c assume "c \<in> set (butlast (nx # R))"
      then have "c \<in> set (nx # R)" by (rule in_set_butlastD)
      then have "c \<noteq> l" "c \<noteq> pa" using dist l by auto
      then show "nxt (h' ! c) = nxt (h ! c)" using co [of c] cn by (cases "c = nx") simp_all
    qed
    show "\<forall>c\<in>set (tl (nx # R)). previous (h' ! c) = previous (h ! c)"
    proof
      fix c assume "c \<in> set (tl (nx # R))"
      then have "c \<in> set R" by simp
      then have "c \<noteq> l" "c \<noteq> pa" "c \<noteq> nx" using dist l by auto
      then show "previous (h' ! c) = previous (h ! c)" using co [of c] by simp
    qed
  qed
  have l3: "links h' [pa, l, nx]" using cl cp cn by simp
  have "links h' (pa # l # nx # R)" using l3 l2 links_app [of h' "[pa, l]" nx R] by simp
  then have l4: "links h' (A @ pa # l # nx # R)" using l1 links_app [of h' A pa "l # nx # R"] by simp
  have c4: "\<forall>a. a \<noteq> l \<and> a \<noteq> pa \<and> a \<noteq> nx \<longrightarrow> h' ! a = h ! a" using co by blast
  show ?thesis by (intro exI [of _ h'] conjI r sb l4 c4)
qed

subsection \<open>Iterating over the list\<close>

lemma links_fwd: "links h (a # ls @ [b]) \<Longrightarrow> fwd h a ls b \<and> (\<forall>l\<in>set ls. previous (h ! l) \<noteq> None)"
  by (induction ls arbitrary: a) auto

lemma advance_step:
  assumes "a < length h" "\<not> isTail (h ! a)" "isHead (h ! a) \<or> previous (h ! a) \<noteq> None"
    "nxt (h ! a) = Some b" "b < length h"
  shows "advance h \<lparr>ipointer = Some a\<rparr> = Some (Inr (h, \<lparr>ipointer = Some b\<rparr>, \<not> isTail (h ! b)))"
  using assms
  by (auto simp: advance_def andThenO_def andThen_def IsTail_def IsHead_def IsDeleted_def Next_def load_def)

lemma get_live: "live h l \<Longrightarrow> get h \<lparr>ipointer = Some l\<rparr> = Inr (element (h ! l))"
  by (simp add: live_def get_def inCollection_def andThen_def IsTail_def IsHead_def IsDeleted_def
      Value_def load_def)

lemma valuesLoop_fwd:
  assumes tl: "tb < length h" "isTail (h ! tb)"
  shows "fwd h a ls tb \<Longrightarrow> a < length h \<Longrightarrow> \<not> isTail (h ! a) \<Longrightarrow>
     isHead (h ! a) \<or> previous (h ! a) \<noteq> None \<Longrightarrow> \<forall>l\<in>set ls. live h l \<Longrightarrow>
     valuesLoop h \<lparr>ipointer = Some a\<rparr> acc = Some (Inr (h, acc @ map (\<lambda>l. element (h ! l)) ls))"
proof (induction ls arbitrary: a acc)
  case Nil
  then have "advance h \<lparr>ipointer = Some a\<rparr> = Some (Inr (h, \<lparr>ipointer = Some tb\<rparr>, False))"
    using advance_step [of a h tb] tl by simp
  then show ?case by (subst valuesLoop.simps) (simp add: andThenO_def)
next
  case (Cons x xs)
  then have lx: "live h x" by simp
  then have "advance h \<lparr>ipointer = Some a\<rparr> = Some (Inr (h, \<lparr>ipointer = Some x\<rparr>, True))"
    using advance_step [of a h x] Cons.prems by (simp add: live_def)
  then have step: "valuesLoop h \<lparr>ipointer = Some a\<rparr> acc =
      valuesLoop h \<lparr>ipointer = Some x\<rparr> (acc @ [element (h ! x)])"
    using get_live [OF lx] by (subst valuesLoop.simps) (simp add: andThenO_def)
  have "valuesLoop h \<lparr>ipointer = Some x\<rparr> (acc @ [element (h ! x)]) =
      Some (Inr (h, (acc @ [element (h ! x)]) @ map (\<lambda>l. element (h ! l)) xs))"
    using Cons.prems lx by (intro Cons.IH) (simp_all add: live_def)
  then show ?case using step by simp
qed


subsection \<open>Insertion keeps the invariant\<close>

lemma innerPaths_nil: "K \<noteq> {} \<Longrightarrow> \<forall>k\<in>K. k \<noteq> [] \<Longrightarrow> [] \<in> innerPaths b K"
  unfolding innerPaths_def by force

lemma innerPaths_take: "k \<in> K \<Longrightarrow> j < length k \<Longrightarrow> take j k \<in> innerPaths b K"
  unfolding innerPaths_def by blast

lemma find_trie_inv:
  assumes inv: "trie_inv_at n t vs ad ha tb" and ia: "inAlphabet n s"
  defines "k \<equiv> key s" and "K \<equiv> key ` set vs"
  defines "IP \<equiv> innerPaths (root t \<noteq> None) K"
  shows "(k \<in> K \<and> (\<exists>sctx. find_trie t s acquireSearchContext = Some (Inr (Matched, sctx)) \<and>
            pointer sctx = Some (ad k))) \<or>
         (k \<notin> K \<and> (\<exists>sctx m. find_trie t s acquireSearchContext = Some (Inr (Unmatched, sctx)) \<and>
            branchPosition sctx = int m \<and> sdigitizer sctx = digitizer t \<and> m < length k \<and>
            take (Suc m) k \<notin> IP \<union> K \<and>
            ((root t = None \<and> pointer sctx = None \<and> m = 0) \<or>
             (root t \<noteq> None \<and> pointer sctx = Some (ad (take m k)) \<and> take m k \<in> IP))))"
proof -
  define B where "B = nat (n + 1)"
  have n0: "0 \<le> n" using inv by (simp add: trie_inv_at_def)
  have sh: "shape_ok (heap t) B ad IP K"
    using inv by (simp add: trie_inv_at_def B_def IP_def K_def)
  have gk: "goodKey B k" unfolding B_def k_def by (rule goodKey_key [OF n0 ia])
  have kl: "0 < length k" by (simp add: k_def)
  have ks: "k = key s" by (simp add: k_def)
  define s0 where "s0 = prepareSearch t acquireSearchContext"
  have s0: "pointer s0 = root t" "branchPosition s0 = 0" "sdigitizer s0 = digitizer t"
    by (simp_all add: s0_def prepareSearch_def)
  show ?thesis
  proof (cases "vs = []")
    case True
    then have emp: "IsEmpty t" using inv by (simp add: trie_inv_at_def IsEmpty_def Size_def)
    have f: "find_trie t s acquireSearchContext = Some (Inr (Unmatched, s0))"
      using emp by (simp add: find_trie_def s0_def Let_def)
    have Ke: "K = {}" using True by (simp add: K_def)
    have t1: "take (Suc 0) k \<notin> IP \<union> K"
      using Ke kl by (auto simp: IP_def innerPaths_def)
    have d: "(root t = None \<and> pointer s0 = None \<and> (0::nat) = 0) \<or>
          (root t \<noteq> None \<and> pointer s0 = Some (ad (take 0 k)) \<and> take 0 k \<in> IP)"
    proof (cases "root t")
      case None
      then show ?thesis using s0 by simp
    next
      case (Some r)
      then have "root t = Some (ad [])" using inv by (simp add: trie_inv_at_def)
      then show ?thesis using s0 by (simp add: IP_def innerPaths_def)
    qed
    have b0: "branchPosition s0 = int 0" using s0 by simp
    have "\<exists>sctx m. find_trie t s acquireSearchContext = Some (Inr (Unmatched, sctx)) \<and>
            branchPosition sctx = int m \<and> sdigitizer sctx = digitizer t \<and> m < length k \<and>
            take (Suc m) k \<notin> IP \<union> K \<and>
            ((root t = None \<and> pointer sctx = None \<and> m = 0) \<or>
             (root t \<noteq> None \<and> pointer sctx = Some (ad (take m k)) \<and> take m k \<in> IP))"
      by (intro exI [of _ s0] exI [of _ 0] conjI f b0 s0(3) kl t1 d)
    moreover have "k \<notin> K" using Ke by simp
    ultimately show ?thesis by (intro disjI2 conjI)
  next
    case False
    then have ne: "\<not> IsEmpty t" using inv by (simp add: trie_inv_at_def IsEmpty_def Size_def)
    have rt: "root t = Some (ad [])" using inv False by (auto simp: trie_inv_at_def)
    have f: "find_trie t s acquireSearchContext = findLoop (heap t) s (int (length k)) s0"
    proof -
      have "NumDigitsOf (digitizer t) s = int (length k)" by (simp add: NumDigitsOf_def k_def)
      then show ?thesis using ne by (simp add: find_trie_def s0_def Let_def)
    qed
    have nil: "[] \<in> IP" using rt by (simp add: IP_def innerPaths_def)
    have p0: "pointer s0 = Some (ad (take 0 k))" using s0 rt by simp
    have b0: "branchPosition s0 = int 0" using s0 by simp
    have t0: "take 0 k \<in> IP \<union> K" using nil by simp
    have l0: "0 \<le> length k" by simp
    from findLoop_shape [OF sh gk ks inAlphabet_ascii [OF ia] t0 l0 p0 b0]
    obtain m where m: "m \<le> length k" "take m k \<in> IP \<union> K" "take m k \<in> K \<longrightarrow> m = length k"
       "take m k \<notin> K \<longrightarrow> m < length k \<and> take (Suc m) k \<notin> IP \<union> K"
       and fl: "findLoop (heap t) s (int (length k)) s0 =
         Some (Inr (if take m k \<in> K then Matched else Unmatched,
                    s0\<lparr>branchPosition := int m, pointer := Some (ad (take m k))\<rparr>))"
      by blast
    define s1 where "s1 = s0\<lparr>branchPosition := int m, pointer := Some (ad (take m k))\<rparr>"
    show ?thesis
    proof (cases "take m k \<in> K")
      case True
      then have "take m k = k" using m(3) by simp
      then have a: "k \<in> K" and b: "find_trie t s acquireSearchContext = Some (Inr (Matched, s1))"
        and c: "pointer s1 = Some (ad k)"
        using True f fl by (simp_all add: s1_def)
      have "\<exists>sctx. find_trie t s acquireSearchContext = Some (Inr (Matched, sctx)) \<and>
            pointer sctx = Some (ad k)"
        by (intro exI [of _ s1] conjI b c)
      then show ?thesis using a by (intro disjI1 conjI)
    next
      case nK: False
      have m': "m < length k" "take (Suc m) k \<notin> IP \<union> K" "take m k \<in> IP"
        using nK m(4) m(2) by blast+
      have kn: "k \<notin> K"
      proof
        assume kK: "k \<in> K"
        have "take (Suc m) k \<in> IP \<union> K"
          using paths_prefix [OF shape_paths [OF sh], of k "Suc m"] kK m'(1)
          by (cases "Suc m < length k") (auto simp: not_less)
        then show False using m'(2) by simp
      qed
      have c1: "find_trie t s acquireSearchContext = Some (Inr (Unmatched, s1))"
        using nK f fl by (simp add: s1_def)
      have c2: "branchPosition s1 = int m" by (simp add: s1_def)
      have c3: "sdigitizer s1 = digitizer t" using s0 by (simp add: s1_def)
      have c4: "(root t = None \<and> pointer s1 = None \<and> m = 0) \<or>
             (root t \<noteq> None \<and> pointer s1 = Some (ad (take m k)) \<and> take m k \<in> IP)"
        using rt m'(3) by (simp add: s1_def)
      have "\<exists>sctx m. find_trie t s acquireSearchContext = Some (Inr (Unmatched, sctx)) \<and>
            branchPosition sctx = int m \<and> sdigitizer sctx = digitizer t \<and> m < length k \<and>
            take (Suc m) k \<notin> IP \<union> K \<and>
            ((root t = None \<and> pointer sctx = None \<and> m = 0) \<or>
             (root t \<noteq> None \<and> pointer sctx = Some (ad (take m k)) \<and> take m k \<in> IP))"
        by (intro exI [of _ s1] exI [of _ m] conjI c1 c2 c3 m'(1) m'(2) c4)
      then show ?thesis using kn by (intro disjI2 conjI)
    qed
  qed
qed

lemma fresh_above:
  assumes po: "paths_ok B IP K" and f: "take (Suc m) k \<notin> IP \<union> K" and kK: "k \<notin> K"
  shows "m < j \<and> j \<le> length k \<longrightarrow> take j k \<notin> IP \<union> K"
proof (intro impI notI)
  assume j: "m < j \<and> j \<le> length k" and a: "take j k \<in> IP \<union> K"
  have "Suc m \<le> j" using j by simp
  show False
  proof (cases "Suc m = j")
    case True
    then show ?thesis using a f by simp
  next
    case False
    then have lt: "Suc m < length (take j k)" using j by simp
    have "take (Suc m) (take j k) \<in> IP" using paths_prefix [OF po a lt] .
    moreover have "take (Suc m) (take j k) = take (Suc m) k" using j by (simp add: min_def)
    ultimately show ?thesis using f by simp
  qed
qed

lemma shape_root:
  assumes "R < length h" "h ! R = emptyCell\<lparr>children := replicate B None, isRoot := True\<rparr>"
  shows "shape_ok h B (ad([] := R)) {[]} {}"
proof -
  have "inner_ok h B (ad([] := R)) ({[]} \<union> {}) []"
    using assms by (intro inner_okI [where a = R]) (simp_all add: emptyCell_def occupied_def)
  then show ?thesis by (simp add: shape_ok_def)
qed

lemma innerPaths_insert:
  assumes po: "paths_ok B IP K" and m: "take m k \<in> IP" "m < length k" and nil: "[] \<in> IP"
    and IP: "IP = innerPaths True K"
  shows "IP \<union> newInner k m = innerPaths True (insert k K)"
proof -
  have low: "take j k \<in> IP" if "j \<le> m" for j
  proof (cases "j = m")
    case True then show ?thesis using m by simp
  next
    case False
    then have "j < length (take m k)" using that m(2) by simp
    then have "take j (take m k) \<in> IP" using paths_prefix [OF po, of "take m k" j] m(1) by simp
    moreover have "take j (take m k) = take j k" using that by (simp add: min_def)
    ultimately show ?thesis by simp
  qed
  have a: "{take j k | j. j < length k} \<subseteq> IP \<union> newInner k m"
  proof
    fix r assume "r \<in> {take j k | j. j < length k}"
    then obtain j where j: "j < length k" "r = take j k" by blast
    show "r \<in> IP \<union> newInner k m"
    proof (cases "j \<le> m")
      case True then show ?thesis using low j by simp
    next
      case False
      then have "r \<in> newInner k m" unfolding newInner_def using j by auto
      then show ?thesis by simp
    qed
  qed
  have b: "newInner k m \<subseteq> {take j k | j. j < length k}" unfolding newInner_def by blast
  have c: "innerPaths True (insert k K) = innerPaths True K \<union> {take j k | j. j < length k}"
    unfolding innerPaths_def by auto
  show ?thesis unfolding c using a b IP by blast
qed

lemma addNode_inv:
  assumes inv: "trie_inv_at n t vs ad ha tb" and ia: "inAlphabet n s"
    and k: "k = key s" and K: "K = key ` set vs" and IP: "IP = innerPaths (root t \<noteq> None) K"
    and B: "B = nat (n + 1)" and L: "L = length (heap t)"
    and lc: "lc = newLeafNode\<lparr>element := Some s\<rparr>"
    and kn: "k \<notin> K"
    and bp: "branchPosition sctx = int m" and ml: "m < length k"
    and fr: "take (Suc m) k \<notin> IP \<union> K"
    and pt: "(root t = None \<and> pointer sctx = None \<and> m = 0) \<or>
             (root t \<noteq> None \<and> pointer sctx = Some (ad (take m k)) \<and> take m k \<in> IP)"
  shows "\<exists>h' ad'. addNode (t\<lparr>heap := heap t @ [lc]\<rparr>) (Some L) sctx =
            Inr (t\<lparr>heap := h', root := Some (ad' [])\<rparr>,
                 sctx\<lparr>pointer := Some L, branchPosition := int (length k)\<rparr>) \<and>
          shape_ok h' B ad' (innerPaths True (insert k K)) (insert k K) \<and> ad' k = L \<and>
          (\<forall>r\<in>K. ad' r = ad r) \<and> length (heap t) < length h' \<and>
          (\<forall>a<length (heap t). leaf (heap t ! a) \<longrightarrow> h' ! a = heap t ! a) \<and>
          h' ! L = lc\<lparr>parent := Some (ad' (butlast k))\<rparr>"
proof -
  define h1 where "h1 = heap t @ [lc]"
  define t1 where "t1 = t\<lparr>heap := h1\<rparr>"
  have n0: "0 \<le> n" and cap: "capacity t = int B" using inv by (simp_all add: trie_inv_at_def B)
  have sh: "shape_ok (heap t) B ad IP K" using inv by (simp add: trie_inv_at_def B K IP)
  have gk: "goodKey B k" unfolding B k by (rule goodKey_key [OF n0 ia])
  have kne: "k \<noteq> []" using gk by (simp add: goodKey_def)
  have L1: "L < length h1" and cL: "h1 ! L = lc" by (simp_all add: h1_def L)
  from pt show ?thesis
  proof
    assume a: "root t \<noteq> None \<and> pointer sctx = Some (ad (take m k)) \<and> take m k \<in> IP"
    have rt: "root t = Some (ad [])" using inv a by (simp add: trie_inv_at_def)
    have IPt: "IP = innerPaths True K" using a IP by simp
    have nil: "[] \<in> IP" unfolding IPt innerPaths_def by simp
    have sh1: "shape_ok (heap t1) B ad IP K"
      unfolding t1_def h1_def using shape_append [OF sh] by simp
    have cap1: "capacity t1 = int B" using cap by (simp add: t1_def)
    have Lf: "L \<notin> ad ` (IP \<union> K)"
    proof
      assume "L \<in> ad ` (IP \<union> K)"
      then obtain r where "r \<in> IP \<union> K" "L = ad r" by blast
      then show False using shape_addr_lt [OF sh, of r] by (simp add: L)
    qed
    have L1': "L < length (heap t1)" and cL': "heap t1 ! L = newLeafNode\<lparr>element := Some s\<rparr>"
      using L1 cL by (simp_all add: t1_def lc)
    have ptr: "pointer sctx = Some (ad (take m k))" and mIP: "take m k \<in> IP" using a by simp_all
    have fresh: "\<forall>j. m < j \<and> j \<le> length k \<longrightarrow> take j k \<notin> IP \<union> K"
      using fresh_above [OF shape_paths [OF sh] fr kn] by blast
    from addNode_core [OF sh1 gk k inAlphabet_ascii [OF ia] cap1 L1' Lf cL' ptr bp ml mIP fresh]
    obtain h' ad' where r: "addNode t1 (Some L) sctx =
            Inr (t1\<lparr>heap := h'\<rparr>, sctx\<lparr>pointer := Some L, branchPosition := int (length k)\<rparr>)"
      and sh': "shape_ok h' B ad' (IP \<union> newInner k m) (insert k K)" and adk: "ad' k = L"
      and old: "\<forall>r\<in>IP \<union> K. ad' r = ad r" and len: "length (heap t1) \<le> length h'"
      and frame: "\<forall>a<length (heap t1). a \<notin> ad ` IP \<longrightarrow> a \<noteq> L \<longrightarrow> h' ! a = heap t1 ! a"
      and hL: "h' ! L = (heap t1 ! L)\<lparr>parent := Some (ad' (butlast k))\<rparr>"
      by blast
    have "ad' [] = ad []" using old nil by simp
    then have e: "t1\<lparr>heap := h'\<rparr> = t\<lparr>heap := h', root := Some (ad' [])\<rparr>"
      using rt by (simp add: t1_def)
    have c1: "addNode (t\<lparr>heap := heap t @ [lc]\<rparr>) (Some L) sctx =
            Inr (t\<lparr>heap := h', root := Some (ad' [])\<rparr>,
                 sctx\<lparr>pointer := Some L, branchPosition := int (length k)\<rparr>)"
      using r e by (simp add: t1_def h1_def)
    have c2: "shape_ok h' B ad' (innerPaths True (insert k K)) (insert k K)"
      using sh' innerPaths_insert [OF shape_paths [OF sh] mIP ml nil IPt] by simp
    have c4: "\<forall>r\<in>K. ad' r = ad r" using old by simp
    have c5: "length (heap t) < length h'" using len by (simp add: t1_def h1_def)
    have c6: "\<forall>a<length (heap t). leaf (heap t ! a) \<longrightarrow> h' ! a = heap t ! a"
    proof (intro allI impI)
      fix a assume a: "a < length (heap t)" "leaf (heap t ! a)"
      have "a \<notin> ad ` IP"
      proof
        assume "a \<in> ad ` IP"
        then obtain p where "p \<in> IP" "a = ad p" by blast
        then show False using inner_ok_rest(2) [OF shape_innerD [OF sh]] a(2) by blast
      qed
      moreover have "a \<noteq> L" "a < length (heap t1)" using a(1) by (simp_all add: L t1_def h1_def)
      ultimately have "h' ! a = heap t1 ! a" using frame by blast
      then show "h' ! a = heap t ! a" using a(1) by (simp add: t1_def h1_def nth_append)
    qed
    have c7: "h' ! L = lc\<lparr>parent := Some (ad' (butlast k))\<rparr>" using hL cL' by (simp add: lc)
    show ?thesis by (intro exI [of _ h'] exI [of _ ad'] conjI c1 c2 adk c4 c5 c6 c7)
  next
    assume a: "root t = None \<and> pointer sctx = None \<and> m = 0"
    then have vs: "vs = []" using inv by (simp add: trie_inv_at_def)
    have Ke: "K = {}" using vs K by simp
    have IPe: "IP = {}" using a IP Ke by (simp add: innerPaths_def)
    have B0: "0 < B" using gk by (simp add: goodKey_def)
    define rc where "rc = emptyCell\<lparr>children := replicate B None, isRoot := True\<rparr>"
    define R where "R = Suc L"
    define h2 where "h2 = h1 @ [rc]"
    define t2 where "t2 = t\<lparr>heap := h2, root := Some R\<rparr>"
    define s2 where "s2 = sctx\<lparr>pointer := Some R\<rparr>"
    define ad0 where "ad0 = ad([] := R)"
    have nr: "newRootNode (capacity t) = Inr rc" using cap by (simp add: newRootNode_def rc_def)
    have step: "addNode (t\<lparr>heap := heap t @ [lc]\<rparr>) (Some L) sctx = addNode t2 (Some L) s2"
      using a nr
      by (simp add: addNode_def andThen_def alloc_def t2_def s2_def h2_def h1_def R_def L)
    have R2: "R < length h2" by (simp add: h2_def h1_def R_def L)
    have "R = length h1" by (simp add: h1_def R_def L)
    then have cR: "h2 ! R = rc" by (simp add: h2_def)
    have sh2: "shape_ok (heap t2) B ad0 {[]} {}"
      using shape_root [OF R2, of B ad] cR by (simp add: t2_def ad0_def rc_def)
    have cap2: "capacity t2 = int B" using cap by (simp add: t2_def)
    have L2: "L < length (heap t2)" by (simp add: t2_def h2_def h1_def L)
    have Lf: "L \<notin> ad0 ` ({[]} \<union> {})" by (simp add: ad0_def R_def)
    have cL2: "heap t2 ! L = newLeafNode\<lparr>element := Some s\<rparr>"
      by (simp add: t2_def h2_def h1_def L lc nth_append)
    have ptr: "pointer s2 = Some (ad0 (take 0 k))" by (simp add: s2_def ad0_def)
    have bp2: "branchPosition s2 = int 0" using bp a by (simp add: s2_def)
    have l0: "0 < length k" using kne by simp
    have nil: "take 0 k \<in> {[]::nat list}" by simp
    have fresh: "\<forall>j. 0 < j \<and> j \<le> length k \<longrightarrow> take j k \<notin> {[]} \<union> {}" using kne by auto
    from addNode_core [OF sh2 gk k inAlphabet_ascii [OF ia] cap2 L2 Lf cL2 ptr bp2 l0 nil fresh]
    obtain h' ad' where r: "addNode t2 (Some L) s2 =
            Inr (t2\<lparr>heap := h'\<rparr>, s2\<lparr>pointer := Some L, branchPosition := int (length k)\<rparr>)"
      and sh': "shape_ok h' B ad' ({[]} \<union> newInner k 0) (insert k {})" and adk: "ad' k = L"
      and old: "\<forall>r\<in>{[]} \<union> {}. ad' r = ad0 r" and len: "length (heap t2) \<le> length h'"
      and frame: "\<forall>a<length (heap t2). a \<notin> ad0 ` {[]} \<longrightarrow> a \<noteq> L \<longrightarrow> h' ! a = heap t2 ! a"
      and hL: "h' ! L = (heap t2 ! L)\<lparr>parent := Some (ad' (butlast k))\<rparr>"
      by blast
    have "ad' [] = R" using old by (simp add: ad0_def)
    then have e: "t2\<lparr>heap := h'\<rparr> = t\<lparr>heap := h', root := Some (ad' [])\<rparr>"
      by (simp add: t2_def)
    have e2: "s2\<lparr>pointer := Some L, branchPosition := int (length k)\<rparr> =
              sctx\<lparr>pointer := Some L, branchPosition := int (length k)\<rparr>"
      by (simp add: s2_def)
    have c1: "addNode (t\<lparr>heap := heap t @ [lc]\<rparr>) (Some L) sctx =
            Inr (t\<lparr>heap := h', root := Some (ad' [])\<rparr>,
                 sctx\<lparr>pointer := Some L, branchPosition := int (length k)\<rparr>)"
      using step r e e2 by simp
    have "{[]} \<union> newInner k 0 = innerPaths True (insert k K)"
      unfolding Ke innerPaths_def newInner_def using l0 by (auto intro: exI [of _ 0])
    then have c2: "shape_ok h' B ad' (innerPaths True (insert k K)) (insert k K)"
      using sh' Ke by simp
    have c4: "\<forall>r\<in>K. ad' r = ad r" using Ke by simp
    have c5: "length (heap t) < length h'" using len by (simp add: t2_def h2_def h1_def)
    have c6: "\<forall>a<length (heap t). leaf (heap t ! a) \<longrightarrow> h' ! a = heap t ! a"
    proof (intro allI impI)
      fix a assume a: "a < length (heap t)" "leaf (heap t ! a)"
      have "a \<notin> ad0 ` {[]}" "a \<noteq> L" "a < length (heap t2)"
        using a(1) by (simp_all add: ad0_def R_def L t2_def h2_def h1_def)
      then have "h' ! a = heap t2 ! a" using frame by blast
      then show "h' ! a = heap t ! a" using a(1) by (simp add: t2_def h2_def h1_def nth_append)
    qed
    have c7: "h' ! L = lc\<lparr>parent := Some (ad' (butlast k))\<rparr>" using hL cL2 by (simp add: lc)
    show ?thesis by (intro exI [of _ h'] exI [of _ ad'] conjI c1 c2 adk c4 c5 c6 c7)
  qed
qed

lemma sorted_split:
  fixes f :: "'a \<Rightarrow> nat list"
  shows "sorted (map f vs) \<Longrightarrow> f s \<notin> f ` set vs \<Longrightarrow>
    \<exists>xs ys. vs = xs @ ys \<and> (\<forall>x\<in>set xs. f x < f s) \<and> (\<forall>y\<in>set ys. f s < f y) \<and>
       insort_key f s vs = xs @ s # ys"
proof (induction vs)
  case Nil
  then show ?case by simp
next
  case (Cons v vs)
  show ?case
  proof (cases "f s \<le> f v")
    case True
    then have lt: "f s < f v" using Cons.prems(2) by (simp add: less_le)
    have "\<forall>y\<in>set (v # vs). f s < f y" using Cons.prems(1) lt by (auto intro: less_le_trans)
    moreover have "insort_key f s (v # vs) = [] @ s # v # vs" using True by simp
    ultimately show ?thesis by (intro exI [of _ "[]"] exI [of _ "v # vs"]) simp
  next
    case False
    then have lt: "f v < f s" by simp
    have "sorted (map f vs)" "f s \<notin> f ` set vs" using Cons.prems by simp_all
    from Cons.IH [OF this] obtain xs ys where
      xy: "vs = xs @ ys" "\<forall>x\<in>set xs. f x < f s" "\<forall>y\<in>set ys. f s < f y"
          "insort_key f s vs = xs @ s # ys" by blast
    have "insort_key f s (v # vs) = (v # xs) @ s # ys" using False xy(4) by simp
    moreover have "v # vs = (v # xs) @ ys" using xy(1) by simp
    moreover have "\<forall>x\<in>set (v # xs). f x < f s" using xy(2) lt by simp
    ultimately show ?thesis using xy(3) by blast
  qed
qed

lemma sorted_le_last:
  fixes f :: "'a \<Rightarrow> nat list"
  shows "sorted (map f xs) \<Longrightarrow> x \<in> set xs \<Longrightarrow> f x \<le> f (last xs)"
proof (induction xs)
  case Nil
  then show ?case by simp
next
  case (Cons a xs)
  then show ?case by (cases "xs = []") auto
qed

lemma links_same:
  "links h xs \<Longrightarrow> (\<forall>a\<in>set xs. h' ! a = h ! a) \<Longrightarrow> links h' xs"
proof (rule links_frame)
  assume a: "\<forall>a\<in>set xs. h' ! a = h ! a"
  show "\<forall>c\<in>set (butlast xs). nxt (h' ! c) = nxt (h ! c)" using a in_set_butlastD by fastforce
  show "\<forall>c\<in>set (tl xs). previous (h' ! c) = previous (h ! c)" using a list.set_sel(2) by (cases xs) auto
qed

lemma list_ok_same:
  assumes lo: "list_ok h ha ls tb" and len: "length h \<le> length h'"
    and same: "\<forall>a\<in>set (ha # ls @ [tb]). h' ! a = h ! a"
  shows "list_ok h' ha ls tb"
proof -
  have l: "ls \<noteq> [] \<Longrightarrow> links h' (ha # ls @ [tb])"
    using lo same links_same [of h "ha # ls @ [tb]" h'] by (simp add: list_ok_def)
  show ?thesis using lo len same l unfolding list_ok_def by auto
qed

lemma keys_bounded:
  "\<exists>M. \<forall>r\<in>innerPaths b (key ` set vs) \<union> key ` set vs. length r \<le> M"
proof -
  define M where "M = Max (insert 0 (length ` key ` set vs))"
  have k: "length r \<le> M" if "r \<in> key ` set vs" for r
    unfolding M_def using that by (intro Max_ge) auto
  have "length r \<le> M" if "r \<in> innerPaths b (key ` set vs)" for r
  proof -
    from that consider "r = []" | k' j where "k' \<in> key ` set vs" "r = take j k'"
      unfolding innerPaths_def by (auto split: if_splits)
    then show ?thesis
    proof cases
      case 1 then show ?thesis by simp
    next
      case 2
      then have "length r \<le> length k'" by simp
      then show ?thesis using k [OF 2(1)] by simp
    qed
  qed
  then show ?thesis using k by blast
qed

lemma innerPaths_nonempty:
  "\<forall>p\<in>innerPaths b K. p \<noteq> [] \<longrightarrow> (\<exists>x. p @ [x] \<in> innerPaths b K \<union> K)"
proof (intro ballI impI)
  fix p assume p: "p \<in> innerPaths b K" "p \<noteq> []"
  then obtain k j where kj: "k \<in> K" "j < length k" "p = take j k"
    unfolding innerPaths_def by (auto split: if_splits)
  have e: "p @ [k ! j] = take (Suc j) k" using kj by (simp add: take_Suc_snoc)
  show "\<exists>x. p @ [x] \<in> innerPaths b K \<union> K"
  proof (cases "Suc j < length k")
    case True
    then have "take (Suc j) k \<in> innerPaths b K" using kj(1) by (rule innerPaths_take [rotated])
    then show ?thesis using e by (metis UnI1)
  next
    case False
    then have "take (Suc j) k = k" using kj(2) by simp
    then show ?thesis using e kj(1) by (metis UnI2)
  qed
qed

lemma list_ok_links: "list_ok h ha ls tb \<Longrightarrow> ls \<noteq> [] \<Longrightarrow> links h (ha # ls @ [tb])"
  by (simp add: list_ok_def)

lemma list_ok_empty: "list_ok h ha [] tb \<Longrightarrow> nxt (h ! ha) = Some tb"
  by (simp add: list_ok_def)

lemma list_ok_distinct: "list_ok h ha ls tb \<Longrightarrow> distinct (ha # ls @ [tb])"
  by (simp add: list_ok_def)

lemma list_ok_lt: "list_ok h ha ls tb \<Longrightarrow> a \<in> set (ha # ls @ [tb]) \<Longrightarrow> a < length h"
  by (auto simp: list_ok_def)

lemma list_insert:
  assumes lo: "list_ok h ha (X @ Y) tb"
    and L: "L < length h" "L \<notin> set (ha # X @ Y @ [tb])" "\<not> isHead (h ! L)" "\<not> isTail (h ! L)"
    and pa: "pa = last (ha # X)"
  shows "\<exists>h5. AddAfter h (Some L) (Some pa) = Inr h5 \<and> sameButLinks h h5 \<and>
           list_ok h5 ha (X @ L # Y) tb"
proof -
  define A where "A = butlast (ha # X)"
  define nx where "nx = hd (Y @ [tb])"
  define R where "R = tl (Y @ [tb])"
  have Apa: "A @ [pa] = ha # X" unfolding A_def pa by simp
  have nR: "nx # R = Y @ [tb]" unfolding nx_def R_def by simp
  have whole: "A @ pa # nx # R = ha # (X @ Y) @ [tb]"
    using Apa nR by (metis append.assoc append_Cons append_Nil)
  have dist: "distinct (A @ pa # nx # R)" using list_ok_distinct [OF lo] unfolding whole .
  have lens: "\<forall>a\<in>set (ha # (X @ Y) @ [tb]). a < length h" using list_ok_lt [OF lo] by blast
  have pa_in: "pa \<in> set (ha # (X @ Y) @ [tb])" unfolding whole [symmetric] by simp
  have nx_in: "nx \<in> set (ha # (X @ Y) @ [tb])" unfolding whole [symmetric] by simp
  have pal: "pa < length h" and nxl: "nx < length h" using lens pa_in nx_in by blast+
  have Lnot: "L \<notin> set (A @ pa # nx # R)" using L(2) unfolding whole by simp
  have pre: "links h (A @ [pa]) \<and> nxt (h ! pa) = Some nx \<and> links h (nx # R)"
  proof (cases "X @ Y = []")
    case True
    then have "A = []" "pa = ha" "nx = tb" "R = []" by (simp_all add: A_def pa nx_def R_def)
    then show ?thesis using list_ok_empty [of h ha tb] lo True by simp
  next
    case False
    then have "links h (A @ pa # nx # R)" unfolding whole by (rule list_ok_links [OF lo])
    then have "links h (A @ [pa])" "links h (pa # nx # R)"
      using links_app [of h A pa "nx # R"] by simp_all
    then show ?thesis by simp
  qed
  from AddAfter_splice [OF _ _ _ dist Lnot L(1) pal nxl] pre
  obtain h5 where r: "AddAfter h (Some L) (Some pa) = Inr h5" and sb: "sameButLinks h h5"
    and lk: "links h5 (A @ pa # L # nx # R)"
    and oth: "\<forall>a. a \<noteq> L \<and> a \<noteq> pa \<and> a \<noteq> nx \<longrightarrow> h5 ! a = h ! a"
    by blast
  have len: "length h5 = length h" using sb by (simp add: sameButLinks_def)
  have whole': "A @ pa # L # nx # R = ha # (X @ L # Y) @ [tb]"
    using Apa nR by (metis append.assoc append_Cons append_Nil)
  have fl: "\<And>a. a < length h \<Longrightarrow> leaf (h5 ! a) = leaf (h ! a) \<and> isHead (h5 ! a) = isHead (h ! a)
       \<and> isTail (h5 ! a) = isTail (h ! a)"
    using sameButLinks_fields [OF sb] by simp
  have d5: "distinct (ha # (X @ L # Y) @ [tb])" using lo L(2) by (auto simp: list_ok_def)
  have "list_ok h5 ha (X @ L # Y) tb"
    unfolding list_ok_def
  proof (intro conjI)
    show "ha < length h5" "tb < length h5" using lo len by (simp_all add: list_ok_def)
    show "\<forall>l\<in>set (X @ L # Y). l < length h5" using lo len L(1) by (auto simp: list_ok_def)
    show "distinct (ha # (X @ L # Y) @ [tb])" by (rule d5)
    show "leaf (h5 ! ha)" "isHead (h5 ! ha)" "\<not> isTail (h5 ! ha)"
      using lo fl [of ha] by (simp_all add: list_ok_def)
    show "leaf (h5 ! tb)" "isTail (h5 ! tb)" "\<not> isHead (h5 ! tb)"
      using lo fl [of tb] by (simp_all add: list_ok_def)
    show "\<forall>l\<in>set (X @ L # Y). \<not> isHead (h5 ! l) \<and> \<not> isTail (h5 ! l)"
    proof
      fix l assume "l \<in> set (X @ L # Y)"
      then have "l = L \<or> l \<in> set (X @ Y)" by auto
      then show "\<not> isHead (h5 ! l) \<and> \<not> isTail (h5 ! l)"
        using lo fl [of l] L(1,3,4) by (auto simp: list_ok_def)
    qed
    show "if X @ L # Y = [] then nxt (h5 ! ha) = Some tb else links h5 (ha # (X @ L # Y) @ [tb])"
      using lk unfolding whole' by simp
  qed
  then show ?thesis using r sb by blast
qed

lemma Add_new:
  assumes inv: "trie_inv_at n t vs ad ha tb" and ia: "inAlphabet n s"
    and kn: "key s \<notin> key ` set vs"
  shows "\<exists>t' ad'. Add t s = Some (Inr (t', None)) \<and>
           trie_inv_at n t' (insort_key key s vs) ad' ha tb"
proof -
  define k where "k = key s"
  define K where "K = key ` set vs"
  define IP where "IP = innerPaths (root t \<noteq> None) K"
  define B where "B = nat (n + 1)"
  define L where "L = length (heap t)"
  define lc where "lc = newLeafNode\<lparr>element := Some s\<rparr>"
  define g where "g = (\<lambda>v. ad (key v))"
  have n0: "0 \<le> n" using inv by (simp add: trie_inv_at_def)
  have sh: "shape_ok (heap t) B ad IP K" using inv by (simp add: trie_inv_at_def B_def K_def IP_def)
  have gk: "goodKey B k" unfolding B_def k_def by (rule goodKey_key [OF n0 ia])
  have lo: "list_ok (heap t) ha (map g vs) tb" using inv by (simp add: trie_inv_at_def g_def)
  have kK: "k \<notin> K" using kn by (simp add: k_def K_def)
  \<comment> \<open>the search\<close>
  from find_trie_inv [OF inv ia] kK
  obtain sctx m where f: "find_trie t s acquireSearchContext = Some (Inr (Unmatched, sctx))"
    and bp: "branchPosition sctx = int m" and sd: "sdigitizer sctx = digitizer t"
    and ml: "m < length k" and fr: "take (Suc m) k \<notin> IP \<union> K"
    and pt: "(root t = None \<and> pointer sctx = None \<and> m = 0) \<or>
             (root t \<noteq> None \<and> pointer sctx = Some (ad (take m k)) \<and> take m k \<in> IP)"
    unfolding k_def K_def IP_def by blast
  \<comment> \<open>the new leaf and its path\<close>
  from addNode_inv [OF inv ia k_def K_def IP_def B_def L_def lc_def kK bp ml fr pt]
  obtain h' ad' where an: "addNode (t\<lparr>heap := heap t @ [lc]\<rparr>) (Some L) sctx =
            Inr (t\<lparr>heap := h', root := Some (ad' [])\<rparr>,
                 sctx\<lparr>pointer := Some L, branchPosition := int (length k)\<rparr>)"
    and sh': "shape_ok h' B ad' (innerPaths True (insert k K)) (insert k K)" and adk: "ad' k = L"
    and old: "\<forall>r\<in>K. ad' r = ad r" and len: "length (heap t) < length h'"
    and frame: "\<forall>a<length (heap t). leaf (heap t ! a) \<longrightarrow> h' ! a = heap t ! a"
    and hL: "h' ! L = lc\<lparr>parent := Some (ad' (butlast k))\<rparr>"
    by blast
  define t3 where "t3 = t\<lparr>heap := h', root := Some (ad' [])\<rparr>"
  define s3 where "s3 = sctx\<lparr>pointer := Some L, branchPosition := int (length k)\<rparr>"
  define K' where "K' = insert k K"
  define IP' where "IP' = innerPaths True K'"
  have sh3: "shape_ok (heap t3) B ad' IP' K'" using sh' by (simp add: t3_def IP'_def K'_def)
  have K'eq: "K' = key ` set (s # vs)" by (simp add: K'_def K_def k_def)
  obtain M where bound: "\<forall>r\<in>IP' \<union> K'. length r \<le> M"
    using keys_bounded [of True "s # vs"] unfolding IP'_def K'eq by blast
  have nonempty: "\<forall>p\<in>IP'. p \<noteq> [] \<longrightarrow> (\<exists>x. p @ [x] \<in> IP' \<union> K')"
    unfolding IP'_def by (rule innerPaths_nonempty)
  have kK': "k \<in> K'" by (simp add: K'_def)
  have p3: "pointer s3 = Some (ad' k)" by (simp add: s3_def adk)
  have b3: "branchPosition s3 = int (length k)" by (simp add: s3_def)
  have d3: "Base (sdigitizer s3) = int B" using inv sd n0 by (simp add: s3_def trie_inv_at_def B_def)
  note mp = moveToPredecessor_leaf [OF sh3 nonempty bound gk k_def inAlphabet_ascii [OF ia] kK' p3 b3 d3]
  \<comment> \<open>the place in the list\<close>
  have srt: "sorted (map key vs)" and dst: "distinct (map key vs)"
    using inv by (simp_all add: trie_inv_at_def)
  from sorted_split [OF srt kn] obtain xs ys where
    vs: "vs = xs @ ys" and xlt: "\<forall>x\<in>set xs. key x < k" and ygt: "\<forall>y\<in>set ys. k < key y"
    and ins: "insort_key key s vs = xs @ s # ys"
    unfolding k_def by blast
  define pa where "pa = last (ha # map g xs)"
  have lsame: "\<forall>a\<in>set (ha # map g vs @ [tb]). h' ! a = heap t ! a"
  proof
    fix a assume a: "a \<in> set (ha # map g vs @ [tb])"
    have "a < length (heap t)" using list_ok_lt [OF lo a] .
    moreover have "leaf (heap t ! a)"
    proof (cases "a = ha \<or> a = tb")
      case True then show ?thesis using lo by (auto simp: list_ok_def)
    next
      case False
      then obtain v where "v \<in> set vs" "a = ad (key v)" using a by (auto simp: g_def)
      then show ?thesis using shape_leafD [OF sh, of "key v"] by (simp add: leaf_ok_def K_def)
    qed
    ultimately show "h' ! a = heap t ! a" using frame by blast
  qed
  have lo': "list_ok h' ha (map g xs @ map g ys) tb"
    using list_ok_same [OF lo _ lsame] len vs by simp
  have Ll: "L < length h'" using len by (simp add: L_def)
  have Lnot: "L \<notin> set (ha # map g xs @ map g ys @ [tb])"
  proof
    assume "L \<in> set (ha # map g xs @ map g ys @ [tb])"
    then have "L \<in> set (ha # map g vs @ [tb])" using vs by simp
    then show False using list_ok_lt [OF lo] by (auto simp: L_def)
  qed
  have Lh: "\<not> isHead (h' ! L)" "\<not> isTail (h' ! L)"
    by (simp_all add: hL lc_def newLeafNode_def newNode_def emptyCell_def)
  from list_insert [OF lo' Ll Lnot Lh pa_def]
  obtain h5 where aa: "AddAfter h' (Some L) (Some pa) = Inr h5" and sb: "sameButLinks h' h5"
    and lo5: "list_ok h5 ha (map g xs @ L # map g ys) tb"
    by blast
  \<comment> \<open>what moveToPredecessor finds is that place\<close>
  have mpa: "\<exists>s4. (moveToPredecessor t3 s s3 Matched = Some (Inr (False, s4)) \<and> pa = ha) \<or>
                  (moveToPredecessor t3 s s3 Matched = Some (Inr (True, s4)) \<and>
                   pointer s4 = Some pa \<and> leaf (h' ! pa) \<and> pa < length h')"
    using mp
  proof
    assume "\<exists>s'. moveToPredecessor t3 s s3 Matched = Some (Inr (False, s')) \<and> (\<forall>k'\<in>K'. \<not> k' < k)"
    then obtain s4 where s4: "moveToPredecessor t3 s s3 Matched = Some (Inr (False, s4))"
      and no: "\<forall>k'\<in>K'. \<not> k' < k" by blast
    have "xs = []"
    proof (rule ccontr)
      assume "xs \<noteq> []"
      then obtain x where x: "x \<in> set xs" by (cases xs) auto
      then have "key x \<in> K'" using vs by (simp add: K'_def K_def)
      then show False using no xlt x by blast
    qed
    then have "pa = ha" by (simp add: pa_def)
    then show ?thesis using s4 by blast
  next
    assume "\<exists>s' q'. moveToPredecessor t3 s s3 Matched = Some (Inr (True, s')) \<and>
             pointer s' = Some (ad' q') \<and> q' \<in> K' \<and> q' < k \<and> (\<forall>k'\<in>K'. k' < k \<longrightarrow> k' \<le> q')"
    then obtain s4 q' where s4: "moveToPredecessor t3 s s3 Matched = Some (Inr (True, s4))"
      and p4: "pointer s4 = Some (ad' q')" and q': "q' \<in> K'" "q' < k"
      and mx: "\<forall>k'\<in>K'. k' < k \<longrightarrow> k' \<le> q'" by blast
    have qK: "q' \<in> K" using q' by (auto simp: K'_def)
    then obtain v where v: "v \<in> set vs" "q' = key v" by (auto simp: K_def)
    have "v \<notin> set ys" using ygt v(2) q'(2) by (auto simp: less_le)
    then have vx: "v \<in> set xs" using v(1) vs by simp
    then have xne: "xs \<noteq> []" by auto
    have sx: "sorted (map key xs)" using srt vs by (simp add: sorted_append)
    have "key v \<le> key (last xs)" using sorted_le_last [OF sx vx] .
    moreover have "key (last xs) \<le> q'"
    proof -
      have "last xs \<in> set xs" using xne by simp
      then have "key (last xs) < k" "key (last xs) \<in> K'" using xlt vs by (simp_all add: K'_def K_def)
      then show ?thesis using mx by blast
    qed
    ultimately have e: "q' = key (last xs)" using v(2) by simp
    have "pa = g (last xs)" using xne by (simp add: pa_def last_map)
    then have "pa = ad' q'" using old qK e by (simp add: g_def)
    moreover have "leaf (h' ! ad' q')" "ad' q' < length h'"
      using shape_leafD [OF sh', of q'] q'(1) by (simp_all add: leaf_ok_def K'_def)
    ultimately show ?thesis using s4 p4 by auto
  qed
  then obtain s4 where s4: "(moveToPredecessor t3 s s3 Matched = Some (Inr (False, s4)) \<and> pa = ha) \<or>
                  (moveToPredecessor t3 s s3 Matched = Some (Inr (True, s4)) \<and>
                   pointer s4 = Some pa \<and> leaf (h' ! pa) \<and> pa < length h')" by blast
  \<comment> \<open>the run of insert\<close>
  define t5 where "t5 = t3\<lparr>heap := h5, tsize := tsize t3 + 1\<rparr>"
  have al: "alloc (heap t) newLeafNode = (heap t @ [newLeafNode], L)" by (simp add: alloc_def L_def)
  have sv: "SetValue (heap t @ [newLeafNode]) (Some L) (Some s) = Inr (heap t @ [lc])"
    by (simp add: SetValue_def load_def andThen_def L_def lc_def)
  have hd3: "head t3 = Some ha" using inv by (simp add: t3_def trie_inv_at_def)
  have tail: "andThenO (moveToPredecessor t3 s s3 Matched) (\<lambda>(found, sctx4).
          andThenO (if found
                    then Some (andThen (asLeafNode (heap t3) (pointer sctx4)) (\<lambda>l.
                                 AddAfter (heap t3) (Some L) l))
                    else Some (AddAfter (heap t3) (Some L) (head t3))) (\<lambda>h5.
          Some (Inr (t3\<lparr>heap := h5, tsize := tsize t3 + 1\<rparr>, Some L, None)))) =
        Some (Inr (t5, Some L, None))"
    using s4
  proof
    assume "moveToPredecessor t3 s s3 Matched = Some (Inr (False, s4)) \<and> pa = ha"
    then show ?thesis using aa hd3 by (simp add: andThenO_def t5_def t3_def)
  next
    assume a: "moveToPredecessor t3 s s3 Matched = Some (Inr (True, s4)) \<and>
                   pointer s4 = Some pa \<and> leaf (h' ! pa) \<and> pa < length h'"
    then have "asLeafNode (heap t3) (pointer s4) = Inr (Some pa)"
      by (simp add: asLeafNode_def load_def t3_def)
    then show ?thesis using a aa by (simp add: andThenO_def andThen_def t5_def t3_def)
  qed
  have ins_run: "insert_trie t s = Some (Inr (t5, Some L, None))"
    using f al sv an tail unfolding t5_def t3_def s3_def
    by (simp add: insert_trie_def andThenO_def IsPrefixFree_def)
  have add: "Add t s = Some (Inr (t5, None))" using ins_run by (simp add: Add_def andThenO_def)
  \<comment> \<open>the invariant afterwards\<close>
  have sh5: "shape_ok h5 B ad' IP' K'"
    using sameButLinks_shape [OF sb] sh' by (simp add: IP'_def K'_def)
  have keys': "key ` set (xs @ s # ys) = K'" using vs by (auto simp: K'_def K_def k_def)
  have gmap: "map (\<lambda>v. ad' (key v)) (xs @ s # ys) = map g xs @ L # map g ys"
    using old adk vs by (auto simp: g_def K_def k_def)
  have el: "\<forall>v\<in>set (xs @ s # ys). inAlphabet n v \<and> element (h5 ! ad' (key v)) = Some v"
  proof
    fix v assume v: "v \<in> set (xs @ s # ys)"
    show "inAlphabet n v \<and> element (h5 ! ad' (key v)) = Some v"
    proof (cases "v = s")
      case True
      have "element (h5 ! L) = element (h' ! L)" using sameButLinks_fields(5) [OF sb Ll] .
      then show ?thesis using True ia adk by (simp add: hL lc_def k_def)
    next
      case False
      then have vv: "v \<in> set vs" using v vs by auto
      then have iv: "inAlphabet n v" "element (heap t ! ad (key v)) = Some v"
        using inv by (simp_all add: trie_inv_at_def)
      have a: "ad' (key v) = ad (key v)" using old vv by (simp add: K_def)
      have lt: "ad (key v) < length (heap t)" "leaf (heap t ! ad (key v))"
        using shape_leafD [OF sh, of "key v"] vv by (simp_all add: leaf_ok_def K_def)
      then have "h' ! ad (key v) = heap t ! ad (key v)" using frame by blast
      moreover have "element (h5 ! ad (key v)) = element (h' ! ad (key v))"
        using sameButLinks_fields(5) [OF sb, of "ad (key v)"] lt(1) len by simp
      ultimately show ?thesis using iv a by simp
    qed
  qed
  have srt': "sorted (map key (xs @ s # ys))"
    using srt vs xlt ygt by (auto simp: sorted_append k_def less_le intro: order_trans)
  have dst': "distinct (map key (xs @ s # ys))"
    using dst vs kn by (auto simp: k_def)
  have "trie_inv_at n t5 (xs @ s # ys) ad' ha tb"
    unfolding trie_inv_at_def
  proof (intro conjI)
    show "0 \<le> n" by (rule n0)
    show "capacity t5 = n + 1" "Base (digitizer t5) = n + 1" "head t5 = Some ha" "tail t5 = Some tb"
      using inv by (simp_all add: t5_def t3_def trie_inv_at_def)
    show "tsize t5 = int (length (xs @ s # ys))"
      using inv vs by (simp add: t5_def t3_def trie_inv_at_def)
    show "root t5 = None \<longrightarrow> xs @ s # ys = []" by (simp add: t5_def t3_def)
    show "root t5 \<noteq> None \<longrightarrow> root t5 = Some (ad' [])" by (simp add: t5_def t3_def)
    show "shape_ok (heap t5) (nat (n + 1)) ad'
       (innerPaths (root t5 \<noteq> None) (key ` set (xs @ s # ys))) (key ` set (xs @ s # ys))"
      using sh5 unfolding keys' by (simp add: t5_def t3_def IP'_def B_def)
    show "\<forall>v\<in>set (xs @ s # ys). inAlphabet n v \<and> element (heap t5 ! ad' (key v)) = Some v"
      using el by (simp add: t5_def)
    show "sorted (map key (xs @ s # ys))" by (rule srt')
    show "distinct (map key (xs @ s # ys))" by (rule dst')
    show "list_ok (heap t5) ha (map (\<lambda>v. ad' (key v)) (xs @ s # ys)) tb"
      unfolding gmap using lo5 by (simp add: t5_def)
  qed
  then show ?thesis using add ins by (intro exI [of _ t5] exI [of _ ad']) simp
qed

lemma Add_dup:
  assumes inv: "trie_inv_at n t vs ad ha tb" and ia: "inAlphabet n s"
    and kn: "key s \<in> key ` set vs"
  shows "Add t s = Some (Inr (t, Some PrefixViolation))"
proof -
  from find_trie_inv [OF inv ia] kn
  obtain sctx where "find_trie t s acquireSearchContext = Some (Inr (Matched, sctx))" by blast
  then show ?thesis by (simp add: Add_def insert_trie_def andThenO_def)
qed

lemma wrap64_id: "0 \<le> n \<Longrightarrow> n < maxInt \<Longrightarrow> wrap64 (n + 1) = n + 1"
  by (simp add: wrap64_def maxInt_def)

lemma NewTrie_inv:
  assumes "0 \<le> n" and "n < maxInt"
  shows "\<exists>t. NewTrie n = Inr t \<and> trie_inv n t []"
proof -
  note w = wrap64_id [OF assms]
  define h where "h = [newHeadNode\<lparr>nxt := Some 1\<rparr>, newTailNode\<lparr>nxt := Some 0\<rparr>]"
  define t where "t = \<lparr>heap = h, root = None, head = Some 0, tail = Some 1,
     digitizer = NewStringDigitizer n, capacity = n + 1, tsize = 0\<rparr>"
  have r: "NewTrie n = Inr t"
    by (simp add: NewTrie_def newTrie_def newTrieWithDigitizer_def alloc_def SetNext_def load_def
        andThen_def Base_def NewStringDigitizer_def t_def h_def w)
  have sh: "shape_ok h B ad {} {}" for B ad by (simp add: shape_ok_def)
  have lo: "list_ok h 0 [] 1"
    by (simp add: list_ok_def h_def newHeadNode_def newTailNode_def newNode_def emptyCell_def)
  have "trie_inv_at n t [] (\<lambda>p. 0) 0 1"
    using assms sh lo
    by (simp add: trie_inv_at_def t_def Base_def NewStringDigitizer_def innerPaths_def w)
  then show ?thesis using r unfolding trie_inv_def by blast
qed

lemma Add_inv:
  assumes inv: "trie_inv n t vs" and ia: "inAlphabet n s"
  shows "if key s \<in> key ` set vs then Add t s = Some (Inr (t, Some PrefixViolation))
         else (\<exists>t'. Add t s = Some (Inr (t', None)) \<and> trie_inv n t' (insort_key key s vs))"
proof -
  from inv obtain ad ha tb where i: "trie_inv_at n t vs ad ha tb" unfolding trie_inv_def by blast
  show ?thesis
  proof (cases "key s \<in> key ` set vs")
    case True
    then show ?thesis using Add_dup [OF i ia] by simp
  next
    case False
    from Add_new [OF i ia False] show ?thesis using False unfolding trie_inv_def by auto
  qed
qed

lemma AddAll_inv:
  "trie_inv n t vs \<Longrightarrow> \<forall>x\<in>set xs. inAlphabet n x \<Longrightarrow> AddAll t xs = Some (Inr (t', None)) \<Longrightarrow>
     trie_inv n t' (fold (insort_key key) xs vs) \<and> distinct (map key xs) \<and>
     key ` set xs \<inter> key ` set vs = {}"
proof (induction xs arbitrary: t vs)
  case Nil
  then show ?case by simp
next
  case (Cons x xs)
  have ia: "inAlphabet n x" using Cons.prems by simp
  note ai = Add_inv [OF Cons.prems(1) ia]
  show ?case
  proof (cases "key x \<in> key ` set vs")
    case True
    then have "Add t x = Some (Inr (t, Some PrefixViolation))" using ai by simp
    then show ?thesis using Cons.prems(3) by (simp add: andThenO_def)
  next
    case False
    then obtain t1 where t1: "Add t x = Some (Inr (t1, None))"
      "trie_inv n t1 (insort_key key x vs)" using ai by auto
    then have "AddAll t1 xs = Some (Inr (t', None))" using Cons.prems(3) by (simp add: andThenO_def)
    from Cons.IH [OF t1(2) _ this] Cons.prems(2)
    have ih: "trie_inv n t' (fold (insort_key key) xs (insort_key key x vs))"
      "distinct (map key xs)" "key ` set xs \<inter> key ` set (insort_key key x vs) = {}" by simp_all
    have "key ` set (insort_key key x vs) = insert (key x) (key ` set vs)" by (simp add: set_insort_key)
    then show ?thesis using ih False by auto
  qed
qed

lemma inv_sorted:
  "trie_inv n t vs \<Longrightarrow> sorted (map key vs) \<and> distinct (map key vs) \<and> (\<forall>v\<in>set vs. inAlphabet n v)"
  unfolding trie_inv_def trie_inv_at_def by blast

lemma inv_size: "trie_inv n t vs \<Longrightarrow> Size t = int (length vs)"
  unfolding trie_inv_def trie_inv_at_def Size_def by blast

subsection \<open>The order of keys is the order of the lower-cased strings\<close>

lemma digit_less_iff:
  assumes "(of_char c :: nat) < 128" "97 \<le> (of_char (toLower c) :: nat)"
    "(of_char d :: nat) < 128" "97 \<le> (of_char (toLower d) :: nat)"
  shows "digitOfChar c < digitOfChar d \<longleftrightarrow> toLower c < toLower d"
    and "digitOfChar c = digitOfChar d \<longleftrightarrow> toLower c = toLower d"
proof -
  have c: "digitOfChar c = of_char (toLower c) - 96" and d: "digitOfChar d = of_char (toLower d) - 96"
    using assms digitOfChar_eq by simp_all
  show "digitOfChar c < digitOfChar d \<longleftrightarrow> toLower c < toLower d"
    unfolding c d less_char_def using assms by auto
  define a :: nat where "a = of_char (toLower c)"
  define b :: nat where "b = of_char (toLower d)"
  have "97 \<le> a" "97 \<le> b" using assms by (simp_all add: a_def b_def)
  then have "a - 96 = b - 96 \<longleftrightarrow> a = b" by arith
  moreover have "a = b \<longleftrightarrow> toLower c = toLower d" unfolding a_def b_def by (rule of_char_eq_iff)
  ultimately show "digitOfChar c = digitOfChar d \<longleftrightarrow> toLower c = toLower d"
    unfolding c d a_def b_def by blast
qed

lemma key_less_map:
  "inAlphabet n a \<Longrightarrow> inAlphabet n b \<Longrightarrow> key a < key b \<longleftrightarrow> map toLower a < map toLower b"
proof (induction a arbitrary: b)
  case Nil
  show ?case
  proof (cases b)
    case Nil then show ?thesis by (simp add: key_def)
  next
    case (Cons d ds)
    then have "0 < digitOfChar d" using Nil.prems digitOfChar_eq [of d] by (simp add: inAlphabet_def)
    then show ?thesis using Cons by (simp add: key_def)
  qed
next
  case (Cons c cs)
  show ?case
  proof (cases b)
    case Nil
    have "0 < digitOfChar c" using Cons.prems digitOfChar_eq [of c] by (simp add: inAlphabet_def)
    then show ?thesis using Nil by (simp add: key_def)
  next
    case (Cons d ds)
    have c: "(of_char c :: nat) < 128" "97 \<le> (of_char (toLower c) :: nat)"
      and d: "(of_char d :: nat) < 128" "97 \<le> (of_char (toLower d) :: nat)"
      using Cons.prems Cons by (simp_all add: inAlphabet_def)
    have "inAlphabet n cs" "inAlphabet n ds" using Cons.prems Cons by (simp_all add: inAlphabet_def)
    then have ih: "key cs < key ds \<longleftrightarrow> map toLower cs < map toLower ds" by (rule Cons.IH)
    have k: "key (c # cs) = digitOfChar c # key cs" "key (d # ds) = digitOfChar d # key ds"
      by (simp_all add: key_def)
    show ?thesis unfolding Cons k using ih digit_less_iff [OF c d] by simp
  qed
qed

lemma key_less_iff:
  "inAlphabet n a \<Longrightarrow> inAlphabet n b \<Longrightarrow> key a < key b \<longleftrightarrow> ToLower a < ToLower b"
  using key_less_map [of n a b] ToLower_ascii [OF inAlphabet_ascii [of n a]]
    ToLower_ascii [OF inAlphabet_ascii [of n b]] by simp

lemma key_eq_iff:
  "inAlphabet n a \<Longrightarrow> inAlphabet n b \<Longrightarrow> key a = key b \<longleftrightarrow> ToLower a = ToLower b"
  using key_less_iff [of n a b] key_less_iff [of n b a]
  by (metis less_irrefl linorder_less_linear)

lemma key_le_iff:
  "inAlphabet n a \<Longrightarrow> inAlphabet n b \<Longrightarrow> key a \<le> key b \<longleftrightarrow> ToLower a \<le> ToLower b"
  using key_less_iff [of n a b] key_eq_iff [of n a b] by (simp add: le_less)

lemma insort_key_cong:
  fixes f :: "'a \<Rightarrow> 'b::linorder" and g :: "'a \<Rightarrow> 'c::linorder"
  shows "\<forall>y\<in>set ys. (f x \<le> f y \<longleftrightarrow> g x \<le> g y) \<Longrightarrow> insort_key f x ys = insort_key g x ys"
  by (induction ys) auto

lemma sort_key_cong:
  fixes f :: "'a \<Rightarrow> 'b::linorder" and g :: "'a \<Rightarrow> 'c::linorder"
  shows "\<forall>x\<in>set xs. \<forall>y\<in>set xs. (f x \<le> f y \<longleftrightarrow> g x \<le> g y) \<Longrightarrow> sort_key f xs = sort_key g xs"
proof (induction xs)
  case Nil
  then show ?case by simp
next
  case (Cons x xs)
  then have ih: "sort_key f xs = sort_key g xs" by simp
  have "\<forall>y\<in>set (sort_key g xs). (f x \<le> f y \<longleftrightarrow> g x \<le> g y)" using Cons.prems by simp
  then have "insort_key f x (sort_key g xs) = insort_key g x (sort_key g xs)"
    by (rule insort_key_cong)
  then show ?case using ih by (simp add: sort_key_def)
qed

lemma fold_insort_sort_key:
  fixes f :: "'a \<Rightarrow> 'b::linorder"
  assumes "distinct (map f xs)"
  shows "fold (insort_key f) xs [] = sort_key f xs"
proof -
  have "insort_key f y \<circ> insort_key f x = insort_key f x \<circ> insort_key f y"
    if "x \<in> set xs" "y \<in> set xs" for x y
  proof (cases "x = y")
    case True then show ?thesis by simp
  next
    case False
    then have "f x \<noteq> f y" using assms that by (auto simp: distinct_map inj_on_def)
    then show ?thesis using insort_key_left_comm [of f x y] by (auto simp: fun_eq_iff)
  qed
  then have "foldr (insort_key f) xs = fold (insort_key f) xs" by (rule foldr_fold)
  then show ?thesis by (simp add: sort_key_def)
qed

lemma fold_insort_ToLower:
  assumes "distinct (map key xs)" "\<forall>x\<in>set xs. inAlphabet n x"
  shows "fold (insort_key key) xs [] = sort_key ToLower xs"
proof -
  have "sort_key key xs = sort_key ToLower xs"
    using assms(2) key_le_iff by (intro sort_key_cong) blast
  then show ?thesis using fold_insort_sort_key [OF assms(1)] by simp
qed

subsection \<open>Reading a well-formed list\<close>

lemma list_ok_fwd:
  assumes lo: "list_ok h ha ls tb"
  shows "fwd h ha ls tb" and "\<forall>l\<in>set ls. live h l"
proof -
  have a: "fwd h ha ls tb \<and> (\<forall>l\<in>set ls. previous (h ! l) \<noteq> None)"
  proof (cases "ls = []")
    case True
    then show ?thesis using list_ok_empty [of h ha tb] lo by simp
  next
    case False
    then show ?thesis using links_fwd [OF list_ok_links [OF lo False]] by simp
  qed
  then show "fwd h ha ls tb" by simp
  show "\<forall>l\<in>set ls. live h l" using a lo by (auto simp: live_def list_ok_def)
qed



lemma list_ok_first:
  assumes lo: "list_ok h ha ls tb" and ne: "ls \<noteq> []"
  shows "nxt (h ! ha) = Some (hd ls)"
  using list_ok_links [OF lo ne] ne by (cases ls) simp_all

lemma inv_listed: "trie_inv n t vs \<Longrightarrow> listed t (map Some vs)"
proof -
  assume "trie_inv n t vs"
  then obtain ad ha tb where i: "trie_inv_at n t vs ad ha tb" unfolding trie_inv_def by blast
  define ls where "ls = map (\<lambda>v. ad (key v)) vs"
  have "map Some vs = map (\<lambda>l. element (heap t ! l)) ls"
    using i by (simp add: trie_inv_at_def ls_def)
  moreover have "head t = Some ha" "tail t = Some tb" "list_ok (heap t) ha ls tb"
    "tsize t = int (length ls)"
    using i by (simp_all add: trie_inv_at_def ls_def)
  ultimately show ?thesis unfolding listed_def by blast
qed

lemma listed_Values:
  assumes "listed t es" shows "Values t = Some (Inr (t, es))"
proof -
  from assms obtain ha tb ls where l: "head t = Some ha" "tail t = Some tb"
    "list_ok (heap t) ha ls tb" "es = map (\<lambda>l. element (heap t ! l)) ls"
    unfolding listed_def by blast
  have f: "ha < length (heap t)" "tb < length (heap t)" "isTail (heap t ! tb)"
    "\<not> isTail (heap t ! ha)" "isHead (heap t ! ha)"
    using l(3) by (simp_all add: list_ok_def)
  have "valuesLoop (heap t) \<lparr>ipointer = Some ha\<rparr> [] =
      Some (Inr (heap t, [] @ map (\<lambda>l. element (heap t ! l)) ls))"
    using list_ok_fwd [OF l(3)] f by (intro valuesLoop_fwd) simp_all
  then show ?thesis using l by (simp add: Values_def newIterator_def andThenO_def)
qed




subsection \<open>The counter of a node\<close>

lemma countsOk_update:
  "countsOk h \<Longrightarrow> numChildren c = int (occupied c) \<Longrightarrow> countsOk (h[n := c])"
  unfolding countsOk_def using set_update_subset_insert [of h n c] by auto

lemma countsOk_nth: "countsOk h \<Longrightarrow> n < length h \<Longrightarrow> numChildren (h ! n) = int (occupied (h ! n))"
  unfolding countsOk_def by simp

lemma AddChild_counts:
  assumes ok: "countsOk h" and r: "AddChildWithIndexOf h (Some n) i c = Inr (h', e)"
  shows "countsOk h'"
proof (cases "n < length h")
  case False
  then show ?thesis using r by (simp add: AddChildWithIndexOf_def load_def andThen_def)
next
  case n: True
  show ?thesis
  proof (cases "i < 0 \<or> i \<ge> int (length (children (h ! n))) \<or> children (h ! n) ! nat i \<noteq> None")
    case True
    then have "h' = h" using r n
      by (auto simp: AddChildWithIndexOf_def load_def andThen_def split: if_splits)
    then show ?thesis using ok by simp
  next
    case False
    then have i: "nat i < length (children (h ! n))" "children (h ! n) ! nat i = None" by auto
    define x where "x = (h ! n)\<lparr>children := (children (h ! n))[nat i := c],
        numChildren := numChildren (h ! n) + 1\<rparr>"
    define h1 where "h1 = h[n := x]"
    have sp: "SetParent h1 c (Some n) = Inr h'"
      using r n False by (simp add: AddChildWithIndexOf_def load_def andThen_def Let_def h1_def x_def
          split: sum.splits)
    then obtain a where a: "c = Some a" "a < length h1" "h' = h1[a := (h1 ! a)\<lparr>parent := Some n\<rparr>]"
      by (cases c) (auto simp: SetParent_def load_def andThen_def split: if_splits)
    have "occupied x = Suc (occupied (h ! n))"
      unfolding x_def a(1) by (rule occupied_update [OF i])
    then have "numChildren x = int (occupied x)" using countsOk_nth [OF ok n] by (simp add: x_def)
    then have ok1: "countsOk h1" unfolding h1_def by (rule countsOk_update [OF ok])
    have "numChildren ((h1 ! a)\<lparr>parent := Some n\<rparr>) = int (occupied ((h1 ! a)\<lparr>parent := Some n\<rparr>))"
      using countsOk_nth [OF ok1 a(2)] by (simp add: occupied_def)
    then show ?thesis unfolding a(3) by (rule countsOk_update [OF ok1])
  qed
qed

lemma RemoveChild_counts:
  assumes ok: "countsOk h" and r: "RemoveChildWithIndexOf h (Some n) i = Inr (h', b)"
  shows "countsOk h'"
proof (cases "n < length h")
  case False
  then show ?thesis using r by (simp add: RemoveChildWithIndexOf_def load_def andThen_def)
next
  case n: True
  show ?thesis
  proof (cases "h' = h")
    case True
    then show ?thesis using ok by simp
  next
    case False
    then have i: "nat i < length (children (h ! n))" "children (h ! n) ! nat i \<noteq> None"
      and h': "h' = h[n := (h ! n)\<lparr>children := (children (h ! n))[nat i := None],
                                    numChildren := numChildren (h ! n) - 1\<rparr>]"
      using r n
      by (auto simp: RemoveChildWithIndexOf_def load_def andThen_def split: if_splits option.splits)
    have "Suc (occupied ((h ! n)\<lparr>children := (children (h ! n))[nat i := None],
                                    numChildren := numChildren (h ! n) - 1\<rparr>)) = occupied (h ! n)"
      using filter_update_None [OF i] by (simp add: occupied_def)
    then have "numChildren ((h ! n)\<lparr>children := (children (h ! n))[nat i := None],
                                    numChildren := numChildren (h ! n) - 1\<rparr>) =
         int (occupied ((h ! n)\<lparr>children := (children (h ! n))[nat i := None],
                                    numChildren := numChildren (h ! n) - 1\<rparr>))"
      using countsOk_nth [OF ok n] by simp
    then show ?thesis unfolding h' by (rule countsOk_update [OF ok])
  qed
qed

lemma runNodeCall_counts: "countsOk h \<Longrightarrow> runNodeCall h c = Inr h' \<Longrightarrow> countsOk h'"
proof (cases c)
  case (AddChildCall n i ch)
  assume "countsOk h" "runNodeCall h c = Inr h'"
  then show ?thesis using AddChildCall AddChild_counts [of h n i ch h']
    by (auto simp: andThen_def split: sum.splits)
next
  case (RemoveChildCall n i)
  assume "countsOk h" "runNodeCall h c = Inr h'"
  then show ?thesis using RemoveChildCall RemoveChild_counts [of h n i h']
    by (auto simp: andThen_def split: sum.splits)
qed

lemma runNodeCalls_counts: "countsOk h \<Longrightarrow> runNodeCalls h cs = Inr h' \<Longrightarrow> countsOk h'"
proof (induction cs arbitrary: h)
  case Nil
  then show ?case by simp
next
  case (Cons c cs)
  then obtain h1 where "runNodeCall h c = Inr h1" "runNodeCalls h1 cs = Inr h'"
    by (auto simp: andThen_def split: sum.splits)
  then show ?case using Cons.IH runNodeCall_counts [OF Cons.prems(1)] by blast
qed

subsection \<open>Removing a leaf from the list\<close>

lemma LeafRemove_unsplice:
  assumes l: "l < length h" and p: "p < length h" and s: "s < length h"
    and pl: "previous (h ! l) = Some p" and nl: "nxt (h ! l) = Some s"
    and ne: "p \<noteq> l" "s \<noteq> l"
  shows "\<exists>h'. LeafRemove h (Some l) = Inr h' \<and> sameButLinks h h' \<and>
           nxt (h' ! p) = Some s \<and> previous (h' ! s) = Some p \<and>
           previous (h' ! l) = None \<and> nxt (h' ! l) = Some s \<and>
           (\<forall>a. a \<noteq> p \<longrightarrow> nxt (h' ! a) = nxt (h ! a)) \<and>
           (\<forall>a. a \<noteq> s \<and> a \<noteq> l \<longrightarrow> previous (h' ! a) = previous (h ! a))"
proof -
  define h1 where "h1 = h[p := (h ! p)\<lparr>nxt := Some s\<rparr>]"
  define h2 where "h2 = h1[s := (h1 ! s)\<lparr>previous := Some p\<rparr>]"
  define h3 where "h3 = h2[l := (h2 ! l)\<lparr>previous := None\<rparr>]"
  have len: "length h1 = length h" "length h2 = length h" "length h3 = length h"
    by (simp_all add: h1_def h2_def h3_def)
  have s1: "SetNext h (Some p) (Some s) = Inr h1"
    using p by (simp add: SetNext_def load_def andThen_def h1_def)
  have n1: "Next h1 (Some l) = Inr (Some s)"
    using l nl ne by (simp add: Next_def load_def andThen_def h1_def)
  have p1: "Previous h1 (Some l) = Inr (Some p)"
    using l pl ne by (simp add: Previous_def load_def andThen_def h1_def)
  have s2: "SetPrevious h1 (Some s) (Some p) = Inr h2"
    using s len by (simp add: SetPrevious_def load_def andThen_def h2_def)
  have m: "markDeleted h2 (Some l) = Inr h3"
    using l len by (simp add: markDeleted_def load_def andThen_def h3_def)
  have r: "LeafRemove h (Some l) = Inr h3"
    using l pl nl s1 n1 p1 s2 m
    by (simp add: LeafRemove_def Previous_def Next_def load_def andThen_def)
  have cell: "\<And>a. a < length h \<Longrightarrow>
      h3 ! a = (h ! a)\<lparr>nxt := (if a = p then Some s else nxt (h ! a)),
                       previous := (if a = l then None else if a = s then Some p
                                    else previous (h ! a))\<rparr>"
  proof -
    fix a assume a: "a < length h"
    have a1: "h1 ! a = (h ! a)\<lparr>nxt := (if a = p then Some s else nxt (h ! a))\<rparr>"
      using a by (simp add: h1_def nth_list_update)
    have a2: "h2 ! a = (h1 ! a)\<lparr>previous := (if a = s then Some p else previous (h1 ! a))\<rparr>"
      using a len by (simp add: h2_def nth_list_update)
    have a3: "h3 ! a = (h2 ! a)\<lparr>previous := (if a = l then None else previous (h2 ! a))\<rparr>"
      using a len by (simp add: h3_def nth_list_update)
    show "h3 ! a = (h ! a)\<lparr>nxt := (if a = p then Some s else nxt (h ! a)),
                       previous := (if a = l then None else if a = s then Some p
                                    else previous (h ! a))\<rparr>"
      unfolding a3 a2 a1 by simp
  qed
  have out: "\<And>a. \<not> a < length h \<Longrightarrow> h3 ! a = h ! a"
  proof -
    fix a assume "\<not> a < length h"
    then have "a \<noteq> p" "a \<noteq> s" "a \<noteq> l" using p s l by auto
    then show "h3 ! a = h ! a" by (simp add: h3_def h2_def h1_def)
  qed
  have c1: "sameButLinks h h3"
    unfolding sameButLinks_def using len cell by simp
  have c2: "nxt (h3 ! p) = Some s" using cell [OF p] by simp
  have c3: "previous (h3 ! s) = Some p" using cell [OF s] ne by simp
  have c4: "previous (h3 ! l) = None" using cell [OF l] by simp
  have c5: "nxt (h3 ! l) = Some s" using cell [OF l] ne nl by simp
  have c6: "\<forall>a. a \<noteq> p \<longrightarrow> nxt (h3 ! a) = nxt (h ! a)"
  proof (intro allI impI)
    fix a assume "a \<noteq> p"
    then show "nxt (h3 ! a) = nxt (h ! a)"
      using cell [of a] out [of a] by (cases "a < length h") simp_all
  qed
  have c7: "\<forall>a. a \<noteq> s \<and> a \<noteq> l \<longrightarrow> previous (h3 ! a) = previous (h ! a)"
  proof (intro allI impI)
    fix a assume "a \<noteq> s \<and> a \<noteq> l"
    then show "previous (h3 ! a) = previous (h ! a)"
      using cell [of a] out [of a] by (cases "a < length h") simp_all
  qed
  show ?thesis by (intro exI [of _ h3] conjI r c1 c2 c3 c4 c5 c6 c7)
qed

lemma skip_deleted_once:
  assumes l: "l < length h" and s: "s < length h"
    and fl: "\<not> isHead (h ! l)" "\<not> isTail (h ! l)" "previous (h ! l) = None" "nxt (h ! l) = Some s"
    and fs: "isHead (h ! s) \<or> isTail (h ! s) \<or> previous (h ! s) \<noteq> None"
  shows "skipRemovedElements h (Some l) = Some (Inr (h, Some s))"
proof -
  have a: "skipRemovedElements h (Some s) = Some (Inr (h, Some s))"
    using s fs by (subst skipRemovedElements.simps)
      (auto simp: IsHead_def IsTail_def IsDeleted_def load_def andThen_def andThenO_def)
  have b: "h[l := (h ! l)\<lparr>nxt := Some s\<rparr>] = h"
    using fl(4) l by (metis cell.surjective cell.update_convs(7) list_update_id)
  show ?thesis
    using l fl a b by (subst skipRemovedElements.simps)
      (simp add: IsHead_def IsTail_def IsDeleted_def Next_def SetNext_def load_def andThen_def
        andThenO_def)
qed

subsection \<open>Removal keeps the invariant\<close>

lemma sameButChildren_fields:
  assumes "sameButChildren h h'" "a < length h"
  shows "leaf (h' ! a) = leaf (h ! a)" "parent (h' ! a) = parent (h ! a)"
    "nxt (h' ! a) = nxt (h ! a)" "previous (h' ! a) = previous (h ! a)"
    "element (h' ! a) = element (h ! a)" "isRoot (h' ! a) = isRoot (h ! a)"
    "isHead (h' ! a) = isHead (h ! a)" "isTail (h' ! a) = isTail (h ! a)"
proof -
  have e: "(h' ! a)\<lparr>children := children (h ! a), numChildren := numChildren (h ! a)\<rparr> = h ! a"
    using assms by (simp add: sameButChildren_def)
  show "leaf (h' ! a) = leaf (h ! a)" using arg_cong [OF e, of leaf] by simp
  show "parent (h' ! a) = parent (h ! a)" using arg_cong [OF e, of parent] by simp
  show "nxt (h' ! a) = nxt (h ! a)" using arg_cong [OF e, of nxt] by simp
  show "previous (h' ! a) = previous (h ! a)" using arg_cong [OF e, of previous] by simp
  show "element (h' ! a) = element (h ! a)" using arg_cong [OF e, of element] by simp
  show "isRoot (h' ! a) = isRoot (h ! a)" using arg_cong [OF e, of isRoot] by simp
  show "isHead (h' ! a) = isHead (h ! a)" using arg_cong [OF e, of isHead] by simp
  show "isTail (h' ! a) = isTail (h ! a)" using arg_cong [OF e, of isTail] by simp
qed

lemma sameButChildren_refl: "sameButChildren h h"
  by (simp add: sameButChildren_def)

lemma sameButChildren_trans:
  assumes "sameButChildren h h1" "sameButChildren h1 h2"
  shows "sameButChildren h h2"
proof -
  have len: "length h1 = length h" "length h2 = length h"
    using assms by (simp_all add: sameButChildren_def)
  have "(h2 ! a)\<lparr>children := children (h ! a), numChildren := numChildren (h ! a)\<rparr> = h ! a"
    if a: "a < length h" for a
  proof -
    have e1: "(h1 ! a)\<lparr>children := children (h ! a), numChildren := numChildren (h ! a)\<rparr> = h ! a"
      using assms(1) a by (simp add: sameButChildren_def)
    have e2: "(h2 ! a)\<lparr>children := children (h1 ! a), numChildren := numChildren (h1 ! a)\<rparr> = h1 ! a"
      using assms(2) a len by (simp add: sameButChildren_def)
    have "(h2 ! a)\<lparr>children := children (h ! a), numChildren := numChildren (h ! a)\<rparr> =
          ((h2 ! a)\<lparr>children := children (h1 ! a), numChildren := numChildren (h1 ! a)\<rparr>)
             \<lparr>children := children (h ! a), numChildren := numChildren (h ! a)\<rparr>"
      by simp
    then show ?thesis unfolding e2 e1 .
  qed
  then show ?thesis using len by (simp add: sameButChildren_def)
qed

lemma sameButChildren_list:
  assumes sb: "sameButChildren h h'" and lo: "list_ok h ha ls tb"
  shows "list_ok h' ha ls tb"
proof -
  have len: "length h' = length h" using sb by (simp add: sameButChildren_def)
  have lt: "\<And>a. a \<in> set (ha # ls @ [tb]) \<Longrightarrow> a < length h" using list_ok_lt [OF lo] .
  have l: "links h' (ha # ls @ [tb])" if "ls \<noteq> []"
  proof (rule links_frame [OF list_ok_links [OF lo that]])
    show "\<forall>c\<in>set (butlast (ha # ls @ [tb])). nxt (h' ! c) = nxt (h ! c)"
      using sameButChildren_fields(3) [OF sb] lt in_set_butlastD by metis
    show "\<forall>c\<in>set (tl (ha # ls @ [tb])). previous (h' ! c) = previous (h ! c)"
      using sameButChildren_fields(4) [OF sb] lt by simp
  qed
  have f: "\<And>a. a \<in> set (ha # ls @ [tb]) \<Longrightarrow> leaf (h' ! a) = leaf (h ! a) \<and>
      isHead (h' ! a) = isHead (h ! a) \<and> isTail (h' ! a) = isTail (h ! a) \<and>
      nxt (h' ! a) = nxt (h ! a)"
    using sameButChildren_fields [OF sb] lt by simp
  show ?thesis
    unfolding list_ok_def
  proof (intro conjI)
    show "ha < length h'" "tb < length h'" "\<forall>l\<in>set ls. l < length h'"
      using lo len by (simp_all add: list_ok_def)
    show "distinct (ha # ls @ [tb])" using list_ok_distinct [OF lo] .
    show "leaf (h' ! ha)" "isHead (h' ! ha)" "\<not> isTail (h' ! ha)"
      using lo f [of ha] by (simp_all add: list_ok_def)
    show "leaf (h' ! tb)" "isTail (h' ! tb)" "\<not> isHead (h' ! tb)"
      using lo f [of tb] by (simp_all add: list_ok_def)
    show "\<forall>l\<in>set ls. \<not> isHead (h' ! l) \<and> \<not> isTail (h' ! l)"
      using lo f by (simp add: list_ok_def)
    show "if ls = [] then nxt (h' ! ha) = Some tb else links h' (ha # ls @ [tb])"
      using l lo f [of ha] by (simp add: list_ok_def)
  qed
qed

lemma shape_child_lt:
  assumes sh: "shape_ok h B ad IP K" and q: "p @ [x] \<in> IP \<union> K"
  shows "x < B"
proof (cases "p @ [x] \<in> IP")
  case True
  then show ?thesis using shape_digits [OF sh True, of x] by simp
next
  case False
  then have "p @ [x] \<in> K" using q by simp
  then have "goodKey B (p @ [x])" by (rule shape_goodKey [OF sh])
  then show ?thesis by (simp add: goodKey_def)
qed

lemma inner_has_children:
  assumes sh: "shape_ok h B ad IP K" and p: "p \<in> IP"
  shows "(0 < numChildren (h ! ad p)) = (\<exists>x. p @ [x] \<in> IP \<union> K)"
proof -
  note io = shape_innerD [OF sh p]
  have len: "length (children (h ! ad p)) = B" using inner_ok_rest(3) [OF io] .
  have "(0 < numChildren (h ! ad p)) = (\<exists>r\<in>set (children (h ! ad p)). r \<noteq> None)"
    using inner_ok_rest(5) [OF io] by (simp add: occupied_def filter_empty_conv)
  also have "\<dots> = (\<exists>x<B. children (h ! ad p) ! x \<noteq> None)"
    using len by (metis in_set_conv_nth)
  also have "\<dots> = (\<exists>x<B. p @ [x] \<in> IP \<union> K)"
  proof -
    have "\<And>x. x < B \<Longrightarrow> (children (h ! ad p) ! x \<noteq> None) = (p @ [x] \<in> IP \<union> K)"
      using inner_ok_child [OF io] by (simp del: Un_iff)
    then show ?thesis by blast
  qed
  also have "\<dots> = (\<exists>x. p @ [x] \<in> IP \<union> K)"
    using shape_child_lt [OF sh] by blast
  finally show ?thesis .
qed

lemma RemoveChild_shape:
  assumes sh: "shape_ok h B ad IP K" and q: "p @ [x] \<in> IP \<union> K"
    and nc: "\<forall>y. p @ [x] @ [y] \<notin> IP \<union> K"
  shows "\<exists>h'. RemoveChildWithIndexOf h (Some (ad p)) (int x) = Inr (h', True) \<and>
           shape_ok h' B ad (IP - {p @ [x]}) (K - {p @ [x]}) \<and> sameButChildren h h'"
proof -
  define qq where "qq = p @ [x]"
  define h' where "h' = h[ad p := (h ! ad p)\<lparr>children := (children (h ! ad p))[x := None],
                      numChildren := numChildren (h ! ad p) - 1\<rparr>]"
  define IP' where "IP' = IP - {qq}"
  define K' where "K' = K - {qq}"
  have N': "IP' \<union> K' = (IP \<union> K) - {qq}" by (auto simp: IP'_def K'_def)
  have qN: "qq \<in> IP \<union> K" using q by (simp add: qq_def)
  have pIP: "p \<in> IP" using shape_closed [OF sh q] .
  have pne: "p \<noteq> qq" by (simp add: qq_def)
  have pIP': "p \<in> IP'" using pIP pne by (simp add: IP'_def)
  note io = shape_innerD [OF sh pIP]
  have xB: "x < B" using shape_child_lt [OF sh q] .
  have adp: "ad p < length h" and lenc: "length (children (h ! ad p)) = B"
    using inner_ok_rest [OF io] by simp_all
  have slot: "children (h ! ad p) ! x = Some (ad qq)"
    using inner_ok_child [OF io xB] q by (simp add: qq_def del: Un_iff)
  have r: "RemoveChildWithIndexOf h (Some (ad p)) (int x) = Inr (h', True)"
    using adp lenc slot xB
    by (simp add: RemoveChildWithIndexOf_def load_def andThen_def checkBounds_def h'_def)
  have len: "length h' = length h" by (simp add: h'_def)
  have hp: "h' ! ad p = (h ! ad p)\<lparr>children := (children (h ! ad p))[x := None],
                      numChildren := numChildren (h ! ad p) - 1\<rparr>"
    using adp by (simp add: h'_def)
  have hb: "\<And>b. b \<noteq> ad p \<Longrightarrow> h' ! b = h ! b" by (simp add: h'_def)
  have sb: "sameButChildren h h'"
    unfolding sameButChildren_def
  proof (intro conjI allI impI)
    show "length h' = length h" by (rule len)
    fix a assume "a < length h"
    show "(h' ! a)\<lparr>children := children (h ! a), numChildren := numChildren (h ! a)\<rparr> = h ! a"
      using hp hb [of a] by (cases "a = ad p") simp_all
  qed
  have inj': "inj_on ad (IP' \<union> K')"
    using shape_inj [OF sh] unfolding N' by (rule inj_on_subset) blast
  have closed': "\<forall>p' x'. p' @ [x'] \<in> IP' \<union> K' \<longrightarrow> p' \<in> IP'"
  proof (intro allI impI)
    fix p' x' assume a: "p' @ [x'] \<in> IP' \<union> K'"
    then have b: "p' @ [x'] \<in> IP \<union> K" unfolding N' by simp
    then have "p' \<in> IP" by (rule shape_closed [OF sh])
    moreover have "p' \<noteq> qq" using b nc by (auto simp: qq_def)
    ultimately show "p' \<in> IP'" by (simp add: IP'_def)
  qed
  have good': "\<forall>k\<in>K'. goodKey B k" using shape_goodKey [OF sh] by (simp add: K'_def)
  have digits': "\<forall>p'\<in>IP'. \<forall>y\<in>set p'. 1 \<le> y \<and> y < B"
    using shape_digits [OF sh] unfolding IP'_def by blast
  have inner_old: "inner_ok h' B ad (IP' \<union> K') p'" if p': "p' \<in> IP'" "p' \<noteq> p" for p'
  proof -
    have p'IP: "p' \<in> IP" using p'(1) by (simp add: IP'_def)
    note io' = shape_innerD [OF sh p'IP]
    have "ad p' \<noteq> ad p" using shape_inj [OF sh] p'IP p'(2) pIP by (auto simp: inj_on_def)
    then have cell: "h' ! ad p' = h ! ad p'" using hb by simp
    have ci: "\<And>x'. p' @ [x'] \<in> IP' \<union> K' \<longleftrightarrow> p' @ [x'] \<in> IP \<union> K"
      unfolding N' using p'(2) by (auto simp: qq_def)
    have ch: "children (h ! ad p') ! x' =
        (if p' @ [x'] \<in> IP' \<union> K' then Some (ad (p' @ [x'])) else None)" if "x' < B" for x'
      using inner_ok_child [OF io' that] ci [of x'] by (simp del: Un_iff)
    show ?thesis
      using inner_ok_rest [OF io'] ch
      by (intro inner_okI [where a = "ad p'"]) (simp_all add: cell len del: Un_iff)
  qed
  have inner_p: "inner_ok h' B ad (IP' \<union> K') p"
  proof -
    have ch: "children (h' ! ad p) ! x' =
        (if p @ [x'] \<in> IP' \<union> K' then Some (ad (p @ [x'])) else None)" if "x' < B" for x'
    proof (cases "x' = x")
      case True
      then show ?thesis using lenc xB unfolding N' by (simp add: hp qq_def)
    next
      case False
      then have "p @ [x'] \<noteq> qq" by (simp add: qq_def)
      then have "p @ [x'] \<in> IP' \<union> K' \<longleftrightarrow> p @ [x'] \<in> IP \<union> K" unfolding N' by simp
      then show ?thesis using inner_ok_child [OF io that] False
        by (simp add: hp del: Un_iff)
    qed
    have "Suc (occupied (h' ! ad p)) = occupied (h ! ad p)"
      unfolding hp occupied_def using filter_update_None [of x "children (h ! ad p)"] lenc xB slot
      by simp
    then have ncp: "numChildren (h' ! ad p) = int (occupied (h' ! ad p))"
      using inner_ok_rest(5) [OF io] by (simp add: hp)
    show ?thesis
      using inner_ok_rest [OF io] ch ncp
      by (intro inner_okI [where a = "ad p"]) (simp_all add: len hp del: Un_iff)
  qed
  have leaf_old: "leaf_ok h' ad k" if k: "k \<in> K'" for k
  proof -
    have kK: "k \<in> K" using k by (simp add: K'_def)
    note lo = shape_leafD [OF sh kK]
    have "ad k \<noteq> ad p"
      using shape_inj [OF sh] kK pIP shape_disj [OF sh pIP] by (auto simp: inj_on_def)
    then have cell: "h' ! ad k = h ! ad k" using hb by simp
    show ?thesis using lo by (simp add: leaf_ok_def cell len)
  qed
  have inner_all: "\<forall>p'\<in>IP'. inner_ok h' B ad (IP' \<union> K') p'"
    using inner_old inner_p by blast
  have leaf_all: "\<forall>k\<in>K'. leaf_ok h' ad k" using leaf_old by blast
  have "shape_ok h' B ad IP' K'"
    unfolding shape_ok_def by (intro conjI inj' closed' good' digits' inner_all leaf_all)
  then show ?thesis using r sb unfolding IP'_def K'_def qq_def by blast
qed

lemma innerPaths_prefix: "p \<in> innerPaths True K \<Longrightarrow> take i p \<in> innerPaths True K"
proof -
  assume "p \<in> innerPaths True K"
  then consider "p = []" | k j where "k \<in> K" "j < length k" "p = take j k"
    unfolding innerPaths_def by auto
  then show ?thesis
  proof cases
    case 1
    then show ?thesis by (simp add: innerPaths_def)
  next
    case 2
    have "take i p = take (min i j) k" unfolding 2(3) by (simp add: min.commute)
    moreover have "min i j < length k" using 2(2) by simp
    ultimately show ?thesis using innerPaths_take [OF 2(1)] by metis
  qed
qed

lemma innerPaths_split:
  "k \<in> K \<Longrightarrow> innerPaths True K = innerPaths True (K - {k}) \<union> {take i k | i. i < length k}"
  unfolding innerPaths_def by auto

lemma innerPaths_child:
  assumes "p @ [x] \<in> innerPaths b K \<union> K"
  shows "p \<in> innerPaths True K"
proof -
  from assms consider "p @ [x] \<in> K" | k j where "k \<in> K" "j < length k" "p @ [x] = take j k"
    unfolding innerPaths_def by (auto split: if_splits)
  then show ?thesis
  proof cases
    case 1
    have "take (length p) (p @ [x]) = p" by simp
    moreover have "length p < length (p @ [x])" by simp
    ultimately show ?thesis using innerPaths_take [OF 1] by metis
  next
    case 2
    have "p = butlast (take j k)" using 2(3) by (metis butlast_snoc)
    also have "\<dots> = take (j - 1) k" using 2(2) by (simp add: butlast_take)
    finally have "p = take (j - 1) k" .
    moreover have "j - 1 < length k" using 2(2) by simp
    ultimately show ?thesis using innerPaths_take [OF 2(1)] by metis
  qed
qed

lemma removeLoop_inner:
  assumes ks: "k = key v" and asc: "\<forall>c\<in>set v. (of_char c :: nat) < 128"
  shows "j < length k \<Longrightarrow>
     shape_ok h B ad (innerPaths True K' \<union> {take i k | i. i \<le> j}) K' \<Longrightarrow>
     \<exists>h'. removeLoop h d v (Some (ad (take j k))) (int j) = Some (Inr h') \<and>
          shape_ok h' B ad (innerPaths True K') K' \<and> sameButChildren h h'"
proof (induction j arbitrary: h)
  case 0
  have e: "innerPaths True K' \<union> {take i k | i. i \<le> 0} = innerPaths True K'"
    by (auto simp: innerPaths_def)
  have sh: "shape_ok h B ad (innerPaths True K') K'" using 0(2) unfolding e .
  have nil: "[] \<in> innerPaths True K'" by (simp add: innerPaths_def)
  note io = shape_innerD [OF sh nil]
  have "removeLoop h d v (Some (ad [])) 0 = Some (Inr h)"
    using inner_ok_rest [OF io]
    by (subst removeLoop.simps) (simp add: IsRoot_def load_def andThen_def andThenO_def)
  then show ?case using sh sameButChildren_refl by simp
next
  case (Suc j)
  define q where "q = take (Suc j) k"
  define IP where "IP = innerPaths True K' \<union> {take i k | i. i \<le> Suc j}"
  have sh: "shape_ok h B ad IP K'" using Suc.prems(2) unfolding IP_def .
  have lq: "length q = Suc j" using Suc.prems(1) by (simp add: q_def)
  have qne: "q \<noteq> []" using lq by auto
  have qIP: "q \<in> IP" unfolding IP_def q_def by blast
  have bq: "butlast q = take j k" using Suc.prems(1) by (simp add: q_def butlast_take)
  have qsn: "take j k @ [k ! j] = q" using Suc.prems(1) by (simp add: q_def take_Suc_snoc)
  note io = shape_innerD [OF sh qIP]
  have root: "IsRoot h (Some (ad q)) = Inr False"
    using inner_ok_rest [OF io] qne by (simp add: IsRoot_def load_def andThen_def)
  have hc: "HasChildren h (Some (ad q)) = Inr (\<exists>x. q @ [x] \<in> IP \<union> K')"
    using inner_ok_rest(1) [OF io] inner_has_children [OF sh qIP]
    by (simp add: HasChildren_def load_def andThen_def del: Un_iff)
  show ?case
  proof (cases "\<exists>x. q @ [x] \<in> IP \<union> K'")
    case True
    then obtain x where x: "q @ [x] \<in> IP \<union> K'" by blast
    have "q @ [x] \<notin> {take i k | i. i \<le> Suc j}"
    proof
      assume "q @ [x] \<in> {take i k | i. i \<le> Suc j}"
      then obtain i where "i \<le> Suc j" "q @ [x] = take i k" by blast
      then have "length (q @ [x]) \<le> Suc j" by simp
      then show False using lq by simp
    qed
    then have "q @ [x] \<in> innerPaths True K' \<union> K'" using x unfolding IP_def by blast
    then have qi: "q \<in> innerPaths True K'" by (rule innerPaths_child)
    have "take i k \<in> innerPaths True K'" if "i \<le> Suc j" for i
    proof -
      have "take i k = take i q" using that by (simp add: q_def min_def)
      then show ?thesis using innerPaths_prefix [OF qi, of i] by simp
    qed
    then have e: "IP = innerPaths True K'" unfolding IP_def by blast
    have "removeLoop h d v (Some (ad q)) (int (Suc j)) = Some (Inr h)"
      using root hc True by (subst removeLoop.simps) (simp add: andThenO_def del: Un_iff)
    then show ?thesis using sh sameButChildren_refl unfolding e q_def by blast
  next
    case False
    then have nc: "\<forall>y. take j k @ [k ! j] @ [y] \<notin> IP \<union> K'" using qsn by (metis append.assoc)
    have q': "take j k @ [k ! j] \<in> IP \<union> K'" using qIP qsn by simp
    from RemoveChild_shape [OF sh q' nc] obtain h1 where
      r: "RemoveChildWithIndexOf h (Some (ad (take j k))) (int (k ! j)) = Inr (h1, True)"
      and sh1: "shape_ok h1 B ad (IP - {q}) (K' - {q})" and sb1: "sameButChildren h h1"
      unfolding qsn by blast
    have qK: "q \<notin> K'" using shape_disj [OF sh qIP] .
    have qn: "q \<notin> innerPaths True K'"
    proof
      assume a: "q \<in> innerPaths True K'"
      then obtain x where "q @ [x] \<in> innerPaths True K' \<union> K'"
        using innerPaths_nonempty [of True K'] qne by blast
      then have "q @ [x] \<in> IP \<union> K'" unfolding IP_def by blast
      then show False using False by blast
    qed
    have e: "IP - {q} = innerPaths True K' \<union> {take i k | i. i \<le> j}"
    proof (rule set_eqI)
      fix r
      have "r \<in> {take i k | i. i \<le> Suc j} \<and> r \<noteq> q \<longleftrightarrow> r \<in> {take i k | i. i \<le> j}"
      proof
        assume a: "r \<in> {take i k | i. i \<le> Suc j} \<and> r \<noteq> q"
        then obtain i where i: "i \<le> Suc j" "r = take i k" by blast
        then have "i \<noteq> Suc j" using a by (auto simp: q_def)
        then show "r \<in> {take i k | i. i \<le> j}" using i by auto
      next
        assume "r \<in> {take i k | i. i \<le> j}"
        then obtain i where i: "i \<le> j" "r = take i k" by blast
        then have "length r \<le> j" by simp
        then have "r \<noteq> q" using lq by auto
        then show "r \<in> {take i k | i. i \<le> Suc j} \<and> r \<noteq> q" using i by auto
      qed
      then show "r \<in> IP - {q} \<longleftrightarrow> r \<in> innerPaths True K' \<union> {take i k | i. i \<le> j}"
        using qn unfolding IP_def by blast
    qed
    have sh1': "shape_ok h1 B ad (innerPaths True K' \<union> {take i k | i. i \<le> j}) K'"
      using sh1 qK unfolding e by simp
    have jl: "j < length k" using Suc.prems(1) by simp
    from Suc.IH [OF jl sh1'] obtain h' where
      rl: "removeLoop h1 d v (Some (ad (take j k))) (int j) = Some (Inr h')"
      and sh': "shape_ok h' B ad (innerPaths True K') K'" and sb': "sameButChildren h1 h'"
      by blast
    have par: "Parent h (Some (ad q)) = Inr (Some (ad (take j k)))"
      using inner_ok_rest [OF io] qne bq by (simp add: Parent_def load_def andThen_def)
    have "j \<le> length v" using Suc.prems(1) ks by simp
    then have dg: "DigitOf d v (int j) = Inr (int (k ! j))"
      unfolding ks by (rule DigitOf_key [OF asc])
    have "removeLoop h d v (Some (ad q)) (int (Suc j)) = Some (Inr h')"
      using root hc False par dg r rl
      by (subst removeLoop.simps) (simp add: andThenO_def del: Un_iff)
    then show ?thesis using sh' sameButChildren_trans [OF sb1 sb'] unfolding q_def by blast
  qed
qed

lemma list_remove:
  assumes lo: "list_ok h ha (X @ l # Y) tb"
  shows "\<exists>h'. LeafRemove h (Some l) = Inr h' \<and> sameButLinks h h' \<and> list_ok h' ha (X @ Y) tb \<and>
           previous (h' ! l) = None \<and> nxt (h' ! l) = Some (hd (Y @ [tb]))"
proof -
  define p where "p = last (ha # X)"
  define s where "s = hd (Y @ [tb])"
  define A where "A = butlast (ha # X)"
  define R where "R = tl (Y @ [tb])"
  have Ap: "A @ [p] = ha # X" unfolding A_def p_def by simp
  have sR: "s # R = Y @ [tb]" unfolding s_def R_def by simp
  have whole: "A @ p # l # s # R = ha # (X @ l # Y) @ [tb]"
    using Ap sR by (metis append.assoc append_Cons append_Nil)
  have whole': "A @ p # s # R = ha # (X @ Y) @ [tb]"
    using Ap sR by (metis append.assoc append_Cons append_Nil)
  have dist: "distinct (A @ p # l # s # R)" using list_ok_distinct [OF lo] unfolding whole .
  have lens: "\<forall>a\<in>set (A @ p # l # s # R). a < length h"
    using list_ok_lt [OF lo] unfolding whole by blast
  have ll: "l < length h" and pl: "p < length h" and sl: "s < length h" using lens by simp_all
  have ne: "p \<noteq> l" "s \<noteq> l" using dist by auto
  have lk: "links h (A @ p # l # s # R)" unfolding whole by (rule list_ok_links [OF lo]) simp
  have lkA: "links h (A @ [p])" and lk2: "links h (p # l # s # R)"
    using lk links_app [of h A p "l # s # R"] by simp_all
  have pl': "previous (h ! l) = Some p" and nl: "nxt (h ! l) = Some s" and lkR: "links h (s # R)"
    using lk2 by simp_all
  from LeafRemove_unsplice [OF ll pl sl pl' nl ne] obtain h' where
    r: "LeafRemove h (Some l) = Inr h'" and sb: "sameButLinks h h'"
    and f: "nxt (h' ! p) = Some s" "previous (h' ! s) = Some p"
       "previous (h' ! l) = None" "nxt (h' ! l) = Some s"
       "\<forall>a. a \<noteq> p \<longrightarrow> nxt (h' ! a) = nxt (h ! a)"
       "\<forall>a. a \<noteq> s \<and> a \<noteq> l \<longrightarrow> previous (h' ! a) = previous (h ! a)"
    by blast
  have len: "length h' = length h" using sb by (simp add: sameButLinks_def)
  have lkA': "links h' (A @ [p])"
  proof (rule links_frame [OF lkA])
    show "\<forall>c\<in>set (butlast (A @ [p])). nxt (h' ! c) = nxt (h ! c)" using f(5) dist by auto
    have "\<forall>c\<in>set (A @ [p]). c \<noteq> s \<and> c \<noteq> l" using dist by auto
    then have "\<forall>c\<in>set (A @ [p]). previous (h' ! c) = previous (h ! c)" using f(6) by blast
    then show "\<forall>c\<in>set (tl (A @ [p])). previous (h' ! c) = previous (h ! c)"
      by (metis list.set_sel(2) tl_Nil)
  qed
  have lkR': "links h' (s # R)"
  proof (rule links_frame [OF lkR])
    have "\<forall>c\<in>set (s # R). c \<noteq> p" using dist by auto
    then have "\<forall>c\<in>set (s # R). nxt (h' ! c) = nxt (h ! c)" using f(5) by blast
    then show "\<forall>c\<in>set (butlast (s # R)). nxt (h' ! c) = nxt (h ! c)"
      by (metis in_set_butlastD)
    show "\<forall>c\<in>set (tl (s # R)). previous (h' ! c) = previous (h ! c)" using f(6) dist by auto
  qed
  have lk': "links h' (A @ p # s # R)"
    using lkA' lkR' f(1,2) links_app [of h' A p "s # R"] by simp
  have fl: "\<And>a. a < length h \<Longrightarrow> leaf (h' ! a) = leaf (h ! a) \<and> isHead (h' ! a) = isHead (h ! a)
       \<and> isTail (h' ! a) = isTail (h ! a)"
    using sameButLinks_fields [OF sb] by simp
  have emp: "nxt (h' ! ha) = Some tb" if "X @ Y = []"
  proof -
    have "p = ha" "s = tb" using that by (simp_all add: p_def s_def)
    then show ?thesis using f(1) by simp
  qed
  have "list_ok h' ha (X @ Y) tb"
    unfolding list_ok_def
  proof (intro conjI)
    show "ha < length h'" "tb < length h'" using lo len by (simp_all add: list_ok_def)
    show "\<forall>l\<in>set (X @ Y). l < length h'" using lo len by (auto simp: list_ok_def)
    show "distinct (ha # (X @ Y) @ [tb])" using list_ok_distinct [OF lo] by auto
    show "leaf (h' ! ha)" "isHead (h' ! ha)" "\<not> isTail (h' ! ha)"
      using lo fl [of ha] by (simp_all add: list_ok_def)
    show "leaf (h' ! tb)" "isTail (h' ! tb)" "\<not> isHead (h' ! tb)"
      using lo fl [of tb] by (simp_all add: list_ok_def)
    show "\<forall>l\<in>set (X @ Y). \<not> isHead (h' ! l) \<and> \<not> isTail (h' ! l)"
      using lo fl by (auto simp: list_ok_def)
    show "if X @ Y = [] then nxt (h' ! ha) = Some tb else links h' (ha # (X @ Y) @ [tb])"
      using lk' emp unfolding whole' by simp
  qed
  then show ?thesis using r sb f(3,4) unfolding s_def by blast
qed

lemma remove_trie_inv:
  assumes inv: "trie_inv_at n t (xs @ v # ys) ad ha tb"
  shows "\<exists>t'. remove_trie t (Some (ad (key v))) = Some (Inr t') \<and>
           trie_inv_at n t' (xs @ ys) ad ha tb \<and>
           previous (heap t' ! ad (key v)) = None \<and>
           nxt (heap t' ! ad (key v)) = Some (hd (map (\<lambda>v. ad (key v)) ys @ [tb])) \<and>
           \<not> isHead (heap t' ! ad (key v)) \<and> \<not> isTail (heap t' ! ad (key v)) \<and>
           ad (key v) < length (heap t')"
proof -
  define k where "k = key v"
  define K where "K = key ` set (xs @ v # ys)"
  define K' where "K' = key ` set (xs @ ys)"
  define B where "B = nat (n + 1)"
  define h where "h = heap t"
  define l where "l = ad k"
  define f where "f = (\<lambda>v. ad (key v))"
  have ks: "k = key v" by (simp add: k_def)
  have n0: "0 \<le> n" and cap: "capacity t = n + 1" and base: "Base (digitizer t) = n + 1"
    and sz: "tsize t = int (length (xs @ v # ys))"
    and hd: "head t = Some ha" and tl: "tail t = Some tb"
    using inv by (simp_all add: trie_inv_at_def)
  have rt: "root t \<noteq> None" and rt': "root t = Some (ad [])"
    using inv by (auto simp: trie_inv_at_def)
  have sh: "shape_ok h B ad (innerPaths True K) K"
    using inv rt unfolding trie_inv_at_def K_def B_def h_def by simp
  have el: "\<forall>w\<in>set (xs @ v # ys). inAlphabet n w \<and> element (h ! ad (key w)) = Some w"
    and so: "sorted (map key (xs @ v # ys))" and di: "distinct (map key (xs @ v # ys))"
    and lo: "list_ok h ha (map f xs @ l # map f ys) tb"
    using inv unfolding trie_inv_at_def h_def f_def l_def k_def by simp_all
  have kK: "k \<in> K" by (simp add: K_def k_def)
  have kK': "k \<notin> K'" using di by (auto simp: K'_def k_def)
  have KK: "K - {k} = K'" using kK' by (auto simp: K_def K'_def k_def)
  note lf = shape_leafD [OF sh kK]
  have ll: "l < length h" using lf by (simp add: leaf_ok_def l_def)
  have gk: "goodKey B k" using shape_goodKey [OF sh kK] .
  have kne: "k \<noteq> []" and lk: "last k = 0" using gk by (simp_all add: goodKey_def)
  have lenk: "length k = Suc (length v)" by (simp add: ks)
  have bk: "butlast k @ [0] = k" using kne lk by (metis append_butlast_last_id)
  from list_remove [OF lo] obtain h1 where
    r1: "LeafRemove h (Some l) = Inr h1" and sb1: "sameButLinks h h1"
    and lo1: "list_ok h1 ha (map f xs @ map f ys) tb"
    and dl: "previous (h1 ! l) = None" "nxt (h1 ! l) = Some (hd (map f ys @ [tb]))"
    by blast
  have len1: "length h1 = length h" using sb1 by (simp add: sameButLinks_def)
  have sh1: "shape_ok h1 B ad (innerPaths True K) K" using sameButLinks_shape [OF sb1 sh] .
  note lf1 = shape_leafD [OF sh1 kK]
  have ev: "element (h ! l) = Some v" using el by (simp add: l_def k_def)
  have va: "Value h1 (Some l) = Inr (Some v)"
    using ll len1 ev sameButLinks_fields(5) [OF sb1 ll] by (simp add: Value_def load_def andThen_def)
  have nd: "NumDigitsOf (digitizer t) v = int (length k)" by (simp add: NumDigitsOf_def lenk)
  have root1: "IsRoot h1 (Some l) = Inr False"
    using lf1 by (simp add: IsRoot_def load_def andThen_def leaf_ok_def l_def)
  have hc1: "HasChildren h1 (Some l) = Inr False"
    using lf1 by (simp add: HasChildren_def load_def andThen_def leaf_ok_def l_def)
  have par1: "Parent h1 (Some l) = Inr (Some (ad (butlast k)))"
    using lf1 by (simp add: Parent_def load_def andThen_def leaf_ok_def l_def)
  have dg1: "DigitOf (digitizer t) v (int (length k) - 1) = Inr 0"
    using DigitOf_end [of "digitizer t" v] by (simp add: lenk)
  have q: "butlast k @ [0] \<in> innerPaths True K \<union> K" using kK bk by simp
  have nc: "\<forall>y. butlast k @ [0] @ [y] \<notin> innerPaths True K \<union> K"
  proof (intro allI notI)
    fix y assume "butlast k @ [0] @ [y] \<in> innerPaths True K \<union> K"
    then have "k @ [y] \<in> innerPaths True K \<union> K" using bk by (metis append.assoc)
    then have "k \<in> innerPaths True K" by (rule shape_closed [OF sh1])
    then show False using shape_disj [OF sh1] kK by blast
  qed
  from RemoveChild_shape [OF sh1 q nc] obtain h2 where
    r2: "RemoveChildWithIndexOf h1 (Some (ad (butlast k))) 0 = Inr (h2, True)"
    and sh2: "shape_ok h2 B ad (innerPaths True K - {k}) (K - {k})"
    and sb2: "sameButChildren h1 h2"
    unfolding bk by auto
  have kI: "k \<notin> innerPaths True K" using shape_disj [OF sh1] kK by blast
  have e: "innerPaths True K - {k} = innerPaths True K' \<union> {take i k | i. i \<le> length k - 1}"
  proof -
    have "{take i k | i. i < length k} = {take i k | i. i \<le> length k - 1}"
      using kne by (auto simp: less_eq_Suc_le lenk)
    then show ?thesis using innerPaths_split [OF kK] kI unfolding KK by auto
  qed
  have sh2': "shape_ok h2 B ad (innerPaths True K' \<union> {take i k | i. i \<le> length k - 1}) K'"
    using sh2 unfolding e KK .
  have jl: "length k - 1 < length k" using kne by simp
  have asv: "\<forall>c\<in>set v. (of_char c :: nat) < 128"
    using el inAlphabet_ascii [of n v] by simp
  from removeLoop_inner [OF ks asv jl sh2', of "digitizer t"] obtain h3 where
    r3: "removeLoop h2 (digitizer t) v (Some (ad (take (length k - 1) k))) (int (length k - 1))
           = Some (Inr h3)"
    and sh3: "shape_ok h3 B ad (innerPaths True K') K'" and sb3: "sameButChildren h2 h3"
    by blast
  have tk: "take (length k - 1) k = butlast k" by (simp add: butlast_conv_take)
  have ik: "int (length k - 1) = int (length k) - 1" using kne by (simp add: lenk)
  have rl: "removeLoop h1 (digitizer t) v (Some l) (int (length k)) = Some (Inr h3)"
    using root1 hc1 par1 dg1 r2 r3 unfolding tk ik
    by (subst removeLoop.simps) (simp add: andThenO_def)
  have sb13: "sameButChildren h1 h3" using sameButChildren_trans [OF sb2 sb3] .
  have len3: "length h3 = length h" using sb13 len1 by (simp add: sameButChildren_def)
  define t' where "t' = t\<lparr>heap := h3, tsize := tsize t - 1\<rparr>"
  have ld: "load (heap t) (Some l) = Inr (h ! l)" using ll by (simp add: load_def h_def)
  have lfl: "leaf (h ! l)" using lf by (simp add: leaf_ok_def l_def)
  have rm: "remove_trie t (Some (ad (key v))) = Some (Inr t')"
    using ld lfl r1 va nd rl unfolding t'_def l_def k_def h_def
    by (simp add: remove_trie_def andThenO_def asString_def)
  have lo3: "list_ok h3 ha (map f (xs @ ys)) tb"
    using sameButChildren_list [OF sb13 lo1] by simp
  have el3: "\<forall>w\<in>set (xs @ ys). inAlphabet n w \<and> element (h3 ! ad (key w)) = Some w"
  proof
    fix w assume w: "w \<in> set (xs @ ys)"
    then have w': "w \<in> set (xs @ v # ys)" by auto
    have "key w \<in> K" unfolding K_def using w' by (rule imageI)
    then have lt: "ad (key w) < length h" using shape_addr_lt [OF sh] by blast
    have "element (h3 ! ad (key w)) = element (h ! ad (key w))"
      using sameButChildren_fields(5) [OF sb13, of "ad (key w)"]
        sameButLinks_fields(5) [OF sb1 lt] lt len1 by simp
    moreover have "inAlphabet n w \<and> element (h ! ad (key w)) = Some w" using el w' by blast
    ultimately show "inAlphabet n w \<and> element (h3 ! ad (key w)) = Some w" by simp
  qed
  have so3: "sorted (map key (xs @ ys))" using so by (auto simp: sorted_append)
  have di3: "distinct (map key (xs @ ys))" using di by auto
  have c1: "trie_inv_at n t' (xs @ ys) ad ha tb"
    unfolding trie_inv_at_def
  proof (intro conjI)
    show "0 \<le> n" by (rule n0)
    show "capacity t' = n + 1" "Base (digitizer t') = n + 1" using cap base by (simp_all add: t'_def)
    show "tsize t' = int (length (xs @ ys))" using sz by (simp add: t'_def)
    show "head t' = Some ha" "tail t' = Some tb" using hd tl by (simp_all add: t'_def)
    show "root t' = None \<longrightarrow> xs @ ys = []" using rt' by (simp add: t'_def)
    show "root t' \<noteq> None \<longrightarrow> root t' = Some (ad [])" using rt' by (simp add: t'_def)
    show "shape_ok (heap t') (nat (n + 1)) ad
            (innerPaths (root t' \<noteq> None) (key ` set (xs @ ys))) (key ` set (xs @ ys))"
      using sh3 rt unfolding K'_def B_def by (simp add: t'_def)
    show "\<forall>v\<in>set (xs @ ys). inAlphabet n v \<and> element (heap t' ! ad (key v)) = Some v"
      using el3 by (simp add: t'_def)
    show "sorted (map key (xs @ ys))" by (rule so3)
    show "distinct (map key (xs @ ys))" by (rule di3)
    show "list_ok (heap t') ha (map (\<lambda>v. ad (key v)) (xs @ ys)) tb"
      using lo3 by (simp add: t'_def f_def)
  qed
  have ll1: "l < length h1" using ll len1 by simp
  have c2: "previous (heap t' ! ad (key v)) = None"
    using dl(1) sameButChildren_fields(4) [OF sb13 ll1] by (simp add: t'_def l_def k_def)
  have c3: "nxt (heap t' ! ad (key v)) = Some (hd (map (\<lambda>v. ad (key v)) ys @ [tb]))"
    using dl(2) sameButChildren_fields(3) [OF sb13 ll1] by (simp add: t'_def l_def k_def f_def)
  have c4: "\<not> isHead (heap t' ! ad (key v))"
    using lf sameButChildren_fields(7) [OF sb13 ll1] sameButLinks_fields(7) [OF sb1 ll]
    by (simp add: t'_def l_def leaf_ok_def k_def)
  have c5: "\<not> isTail (heap t' ! ad (key v))"
    using lf sameButChildren_fields(8) [OF sb13 ll1] sameButLinks_fields(8) [OF sb1 ll]
    by (simp add: t'_def l_def leaf_ok_def k_def)
  have c6: "ad (key v) < length (heap t')" using ll len3 by (simp add: t'_def l_def k_def)
  show ?thesis by (intro exI [of _ t'] conjI rm c1 c2 c3 c4 c5 c6)
qed

lemma Remove_inv:
  assumes inv: "trie_inv n t vs" and ia: "inAlphabet n s"
  shows "if key s \<in> key ` set vs
         then \<exists>t'. Remove t s = Some (Inr (t', True)) \<and>
                 trie_inv n t' (filter (\<lambda>v. key v \<noteq> key s) vs)
         else Remove t s = Some (Inr (t, False))"
proof -
  from inv obtain ad ha tb where i: "trie_inv_at n t vs ad ha tb" unfolding trie_inv_def by blast
  have sz: "tsize t = int (length vs)" using i by (simp add: trie_inv_at_def)
  note f = find_trie_inv [OF i ia]
  show ?thesis
  proof (cases "key s \<in> key ` set vs")
    case False
    have "Remove t s = Some (Inr (t, False))"
    proof (cases "IsEmpty t")
      case True
      then show ?thesis by (simp add: Remove_def)
    next
      case ne: False
      from f False obtain sctx where
        "find_trie t s acquireSearchContext = Some (Inr (Unmatched, sctx))" by blast
      then show ?thesis using ne by (simp add: Remove_def andThenO_def)
    qed
    then show ?thesis using False by simp
  next
    case True
    then obtain v where v: "v \<in> set vs" "key v = key s" by auto
    then obtain xs ys where sp: "vs = xs @ v # ys" by (meson split_list)
    have di: "distinct (map key vs)" using i by (simp add: trie_inv_at_def)
    have fl: "filter (\<lambda>w. key w \<noteq> key s) vs = xs @ ys"
    proof -
      have "key s \<notin> key ` set (xs @ ys)" using di v(2) unfolding sp by auto
      then have "\<forall>w\<in>set (xs @ ys). key w \<noteq> key s" by (metis imageI)
      then show ?thesis unfolding sp using v(2) by simp
    qed
    have ne: "\<not> IsEmpty t" using sz sp by (simp add: IsEmpty_def Size_def)
    from f True obtain sctx where
      fd: "find_trie t s acquireSearchContext = Some (Inr (Matched, sctx))"
      and pt: "pointer sctx = Some (ad (key s))" by blast
    from remove_trie_inv [OF i [unfolded sp]] obtain t' where
      rm: "remove_trie t (Some (ad (key v))) = Some (Inr t')"
      and i': "trie_inv_at n t' (xs @ ys) ad ha tb" by blast
    have "Remove t s = Some (Inr (t', True))"
      using ne fd pt rm v(2) by (simp add: Remove_def andThenO_def)
    moreover have "trie_inv n t' (filter (\<lambda>v. key v \<noteq> key s) vs)"
      unfolding fl trie_inv_def using i' by blast
    ultimately show ?thesis using True by simp
  qed
qed

subsection \<open>Clearing the trie\<close>

lemma advance_deleted:
  assumes "a < length h" "\<not> isTail (h ! a)" "\<not> isHead (h ! a)" "previous (h ! a) = None"
    "nxt (h ! a) = Some b" "b < length h"
    "isHead (h ! b) \<or> isTail (h ! b) \<or> previous (h ! b) \<noteq> None"
  shows "advance h \<lparr>ipointer = Some a\<rparr> = Some (Inr (h, \<lparr>ipointer = Some b\<rparr>, \<not> isTail (h ! b)))"
proof -
  have sk: "skipRemovedElements h (Some a) = Some (Inr (h, Some b))"
    using skip_deleted_once [of a h b] assms by simp
  show ?thesis
    using assms(1,2,3,4,6) sk
    by (simp add: advance_def IsTail_def IsHead_def IsDeleted_def load_def andThen_def andThenO_def)
qed

lemma list_ok_front:
  assumes lo: "list_ok h ha ls tb"
  defines "s \<equiv> hd (ls @ [tb])"
  shows "nxt (h ! ha) = Some s" "s < length h" "isTail (h ! s) = (ls = [])"
    "ls \<noteq> [] \<Longrightarrow> \<not> isHead (h ! s) \<and> previous (h ! s) = Some ha"
proof -
  show "nxt (h ! ha) = Some s"
    using lo list_ok_first [OF lo] by (cases ls) (simp_all add: s_def list_ok_def)
  show "s < length h" using lo by (cases ls) (simp_all add: s_def list_ok_def)
  show "isTail (h ! s) = (ls = [])" using lo by (cases ls) (simp_all add: s_def list_ok_def)
  show "\<not> isHead (h ! s) \<and> previous (h ! s) = Some ha" if "ls \<noteq> []"
  proof -
    from that obtain x xs where ls: "ls = x # xs" by (cases ls) auto
    have "links h (ha # x # xs @ [tb])" using list_ok_links [OF lo that] by (simp add: ls)
    then have "previous (h ! x) = Some ha" by simp
    then show ?thesis using lo by (simp add: s_def ls list_ok_def)
  qed
qed

lemma clearLoop_inv:
  "trie_inv_at n t vs ad ha tb \<Longrightarrow> c < length (heap t) \<Longrightarrow> \<not> isTail (heap t ! c) \<Longrightarrow>
   nxt (heap t ! c) = Some (hd (map (\<lambda>v. ad (key v)) vs @ [tb])) \<Longrightarrow>
   isHead (heap t ! c) \<or> previous (heap t ! c) = None \<Longrightarrow>
   \<exists>t'. clearLoop t \<lparr>ipointer = Some c\<rparr> = Some (Inr t') \<and> trie_inv_at n t' [] ad ha tb"
proof (induction vs arbitrary: t c)
  case Nil
  have lo: "list_ok (heap t) ha [] tb" using Nil(1) by (simp add: trie_inv_at_def)
  have tb: "tb < length (heap t)" "isTail (heap t ! tb)" using lo by (simp_all add: list_ok_def)
  have nx: "nxt (heap t ! c) = Some tb" using Nil(4) by simp
  have "advance (heap t) \<lparr>ipointer = Some c\<rparr> = Some (Inr (heap t, \<lparr>ipointer = Some tb\<rparr>, False))"
  proof (cases "isHead (heap t ! c)")
    case True
    then show ?thesis using advance_step [OF Nil(2,3) _ nx tb(1)] tb(2) by simp
  next
    case False
    then have "previous (heap t ! c) = None" using Nil(5) by simp
    then show ?thesis using advance_deleted [OF Nil(2,3) False _ nx tb(1)] tb(2) by simp
  qed
  then have "clearLoop t \<lparr>ipointer = Some c\<rparr> = Some (Inr t)"
    by (subst clearLoop.simps) (simp add: andThenO_def)
  then show ?case using Nil(1) by simp
next
  case (Cons v vs)
  define s where "s = ad (key v)"
  define h where "h = heap t"
  have lo: "list_ok h ha (s # map (\<lambda>v. ad (key v)) vs) tb"
    using Cons.prems(1) by (simp add: trie_inv_at_def s_def h_def)
  have fr: "s < length h" "\<not> isTail (h ! s)" "\<not> isHead (h ! s)" "previous (h ! s) = Some ha"
    using list_ok_front [OF lo] by simp_all
  have nx: "nxt (h ! c) = Some s" using Cons.prems(4) by (simp add: s_def h_def)
  have cl: "c < length h" "\<not> isTail (h ! c)" using Cons.prems(2,3) by (simp_all add: h_def)
  have adv: "advance h \<lparr>ipointer = Some c\<rparr> = Some (Inr (h, \<lparr>ipointer = Some s\<rparr>, True))"
  proof (cases "isHead (h ! c)")
    case True
    then show ?thesis using advance_step [OF cl _ nx fr(1)] fr(2) by simp
  next
    case False
    then have "previous (h ! c) = None" using Cons.prems(5) by (simp add: h_def)
    then show ?thesis using advance_deleted [OF cl False _ nx fr(1)] fr(2,4) by simp
  qed
  have ic: "inCollection h \<lparr>ipointer = Some s\<rparr> = Inr True"
    using fr by (simp add: inCollection_def IsHead_def IsTail_def IsDeleted_def load_def andThen_def)
  from remove_trie_inv [of n t "[]" v vs ad ha tb] Cons.prems(1) obtain t2 where
    rm: "remove_trie t (Some s) = Some (Inr t2)" and i2: "trie_inv_at n t2 vs ad ha tb"
    and d2: "previous (heap t2 ! s) = None"
       "nxt (heap t2 ! s) = Some (hd (map (\<lambda>v. ad (key v)) vs @ [tb]))"
       "\<not> isHead (heap t2 ! s)" "\<not> isTail (heap t2 ! s)" "s < length (heap t2)"
    unfolding s_def by auto
  from Cons.IH [OF i2 d2(5) d2(4) d2(2)] d2(1) obtain t' where
    r: "clearLoop t2 \<lparr>ipointer = Some s\<rparr> = Some (Inr t')" and i': "trie_inv_at n t' [] ad ha tb"
    by blast
  have th: "t\<lparr>heap := h\<rparr> = t" by (simp add: h_def)
  have "clearLoop t \<lparr>ipointer = Some c\<rparr> = Some (Inr t')"
    using adv ic rm r unfolding h_def [symmetric]
    by (subst clearLoop.simps) (simp add: andThenO_def iterator_remove_def th h_def [symmetric])
  then show ?case using i' by blast
qed

lemma Clear_inv:
  assumes "trie_inv n t vs"
  shows "\<exists>t'. Clear t = Some (Inr t') \<and> trie_inv n t' []"
proof -
  from assms obtain ad ha tb where i: "trie_inv_at n t vs ad ha tb" unfolding trie_inv_def by blast
  have hd: "head t = Some ha" using i by (simp add: trie_inv_at_def)
  have lo: "list_ok (heap t) ha (map (\<lambda>v. ad (key v)) vs) tb" using i by (simp add: trie_inv_at_def)
  have a: "ha < length (heap t)" "\<not> isTail (heap t ! ha)" "isHead (heap t ! ha)"
    using lo by (simp_all add: list_ok_def)
  from clearLoop_inv [OF i a(1,2) list_ok_front(1) [OF lo]] a(3) obtain t' where
    "clearLoop t \<lparr>ipointer = Some ha\<rparr> = Some (Inr t')" "trie_inv_at n t' [] ad ha tb" by blast
  then show ?thesis unfolding Clear_def newIterator_def hd trie_inv_def by blast
qed

subsection \<open>Reachable states\<close>

lemma reachable_inv: "reachable n t \<Longrightarrow> \<exists>vs. trie_inv n t vs"
proof (induction rule: reachable.induct)
  case (reach_new t)
  then show ?case using NewTrie_inv [of n] by auto
next
  case (reach_add t s t' er)
  then obtain vs where vs: "trie_inv n t vs" by blast
  show ?case
  proof (cases "key s \<in> key ` set vs")
    case True
    then have "t' = t" using Add_inv [OF vs reach_add(2)] reach_add(3) by simp
    then show ?thesis using vs by blast
  next
    case False
    then have "trie_inv n t' (insort_key key s vs)"
      using Add_inv [OF vs reach_add(2)] reach_add(3) by auto
    then show ?thesis by blast
  qed
next
  case (reach_remove t s t' b)
  then obtain vs where vs: "trie_inv n t vs" by blast
  show ?case
  proof (cases "key s \<in> key ` set vs")
    case True
    then have "trie_inv n t' (filter (\<lambda>v. key v \<noteq> key s) vs)"
      using Remove_inv [OF vs reach_remove(2)] reach_remove(3) by auto
    then show ?thesis by blast
  next
    case False
    then have "t' = t" using Remove_inv [OF vs reach_remove(2)] reach_remove(3) by simp
    then show ?thesis using vs by blast
  qed
next
  case (reach_clear t t')
  then obtain vs where vs: "trie_inv n t vs" by blast
  then show ?case using Clear_inv [OF vs] reach_clear(2) by auto
qed

lemma AddAll_reachable:
  "reachable n t \<Longrightarrow> \<forall>x\<in>set xs. inAlphabet n x \<Longrightarrow> AddAll t xs = Some (Inr (t', e)) \<Longrightarrow>
   reachable n t'"
proof (induction xs arbitrary: t)
  case Nil
  then show ?case by simp
next
  case (Cons x xs)
  from Cons.prems(3) obtain t1 e1 where a: "Add t x = Some (Inr (t1, e1))"
    and r: "(if e1 \<noteq> None then Some (Inr (t1, e1)) else AddAll t1 xs) = Some (Inr (t', e))"
    by (auto simp: andThenO_def split: option.splits sum.splits Option.bind_splits)
  have r1: "reachable n t1" using reach_add [OF Cons.prems(1) _ a] Cons.prems(2) by simp
  show ?case
  proof (cases "e1 = None")
    case True
    then show ?thesis using r Cons.IH [OF r1] Cons.prems(2) by simp
  next
    case False
    then show ?thesis using r r1 by simp
  qed
qed

lemma AddAll_total:
  "trie_inv n t vs \<Longrightarrow> \<forall>x\<in>set xs. inAlphabet n x \<Longrightarrow>
   \<exists>t' e. AddAll t xs = Some (Inr (t', e)) \<and>
     (e = None \<longleftrightarrow> distinct (map key xs) \<and> key ` set xs \<inter> key ` set vs = {})"
proof (induction xs arbitrary: t vs)
  case Nil
  then show ?case by simp
next
  case (Cons x xs)
  have ia: "inAlphabet n x" and ib: "\<forall>x\<in>set xs. inAlphabet n x" using Cons.prems by simp_all
  show ?case
  proof (cases "key x \<in> key ` set vs")
    case True
    then have "Add t x = Some (Inr (t, Some PrefixViolation))"
      using Add_inv [OF Cons.prems(1) ia] by simp
    then have "AddAll t (x # xs) = Some (Inr (t, Some PrefixViolation))"
      by (simp add: andThenO_def)
    then show ?thesis using True by auto
  next
    case False
    then obtain t1 where t1: "Add t x = Some (Inr (t1, None))"
      "trie_inv n t1 (insort_key key x vs)"
      using Add_inv [OF Cons.prems(1) ia] by auto
    from Cons.IH [OF t1(2) ib] obtain t' e where
      r: "AddAll t1 xs = Some (Inr (t', e))"
      "(e = None) = (distinct (map key xs) \<and> key ` set xs \<inter> key ` set (insort_key key x vs) = {})"
      by blast
    have a: "AddAll t (x # xs) = Some (Inr (t', e))" using t1(1) r(1) by (simp add: andThenO_def)
    have "(e = None) = (distinct (map key (x # xs)) \<and> key ` set (x # xs) \<inter> key ` set vs = {})"
      using r(2) False by (auto simp: set_insort_key)
    then show ?thesis using a by blast
  qed
qed

lemma distinct_key_ToLower:
  assumes "\<forall>x\<in>set xs. inAlphabet n x"
  shows "distinct (map key xs) = distinct (map ToLower xs)"
proof -
  have "inj_on key (set xs) = inj_on ToLower (set xs)"
    unfolding inj_on_def using key_eq_iff assms by blast
  then show ?thesis by (simp add: distinct_map)
qed

lemma trieOf_reachable:
  assumes "0 \<le> n" and "n < maxInt" and "\<forall>x\<in>set xs. inAlphabet n x"
    and "trieOf n xs = Some (Inr (t, e))"
  shows "reachable n t"
proof -
  from assms(4) obtain t0 where t0: "NewTrie n = Inr t0" "AddAll t0 xs = Some (Inr (t, e))"
    unfolding trieOf_def by (cases "NewTrie n") (auto simp: andThenO_def)
  show ?thesis using AddAll_reachable [OF reach_new [OF assms(1,2) t0(1)] assms(3) t0(2)] .
qed

section \<open>The claims\<close>

text \<open>
  Claim C1, for strings over the alphabet of the trie: \<open>AddAll\<close> calls \<open>Add\<close> on each string
  of \<open>xs\<close> in turn and stops at the first error. On a fresh trie of capacity \<open>n\<close>, where
  \<open>0 \<le> n\<close> and \<open>n + 1\<close> does not wrap, \<open>AddAll\<close> returns; it returns no error, which is to say
  that no insertion returns an error, exactly when the lower-cased strings are distinct;
  and then \<open>Values\<close> is \<open>xs\<close> sorted by the lower-cased strings, and \<open>Size\<close> is the number of
  insertions.
\<close>

theorem Values_sorted_after_Adds:
  assumes "0 \<le> n" and "n < maxInt" and "NewTrie n = Inr t0" and "\<forall>x\<in>set xs. inAlphabet n x"
  shows "\<exists>t e. AddAll t0 xs = Some (Inr (t, e)) \<and>
           (e = None \<longleftrightarrow> distinct (map ToLower xs)) \<and>
           (e = None \<longrightarrow> Values t = Some (Inr (t, map Some (sort_key ToLower xs))) \<and>
                            Size t = int (length xs))"
proof -
  have i0: "trie_inv n t0 []" using NewTrie_inv [OF assms(1,2)] assms(3) by auto
  from AddAll_total [OF i0 assms(4)] obtain t e where
    a: "AddAll t0 xs = Some (Inr (t, e))" and e: "(e = None) = distinct (map key xs)"
    by auto
  have c2: "(e = None) = distinct (map ToLower xs)"
    using e distinct_key_ToLower [OF assms(4)] by simp
  have c3: "e = None \<longrightarrow> Values t = Some (Inr (t, map Some (sort_key ToLower xs))) \<and>
                            Size t = int (length xs)"
  proof
    assume "e = None"
    then have i: "trie_inv n t (fold (insort_key key) xs [])" and d: "distinct (map key xs)"
      using AddAll_inv [OF i0 assms(4)] a by simp_all
    have f: "fold (insort_key key) xs [] = sort_key ToLower xs"
      using fold_insort_ToLower [OF d assms(4)] .
    have "Values t = Some (Inr (t, map Some (sort_key ToLower xs)))"
      using listed_Values [OF inv_listed [OF i]] f by simp
    moreover have "Size t = int (length xs)" using inv_size [OF i] f by simp
    ultimately show "Values t = Some (Inr (t, map Some (sort_key ToLower xs))) \<and>
                            Size t = int (length xs)" by simp
  qed
  show ?thesis by (intro exI [of _ t] exI [of _ e] conjI a c2 c3)
qed

theorem Values_sorted_after_Adds_witness:
  "\<exists>t0 t. NewTrie 26 = Inr t0 \<and> AddAll t0 [''the'', ''Quick'', ''brown'', ''fox''] = Some (Inr (t, None)) \<and>
     Values t = Some (Inr (t, [Some ''brown'', Some ''fox'', Some ''Quick'', Some ''the''])) \<and>
     Size t = 4"
proof -
  obtain t0 where t0: "NewTrie 26 = Inr t0" using NewTrie_inv [of 26] by (auto simp: maxInt_def)
  have ia: "\<forall>x\<in>set [''the'', ''Quick'', ''brown'', ''fox'']. inAlphabet 26 x" by code_simp
  have d: "distinct (map ToLower [''the'', ''Quick'', ''brown'', ''fox''])" by code_simp
  have s: "sort_key ToLower [''the'', ''Quick'', ''brown'', ''fox''] =
           [''brown'', ''fox'', ''Quick'', ''the'']" by code_simp
  have b: "(0::int) \<le> 26" "(26::int) < maxInt" by (simp_all add: maxInt_def)
  from Values_sorted_after_Adds [OF b t0 ia] d s show ?thesis using t0 by auto
qed

text \<open>
  Without the restriction to the alphabet the claim fails. The digit of | is 28, beyond
  the 27 slots of a node of the trie for 26 letters: \<open>addNode\<close> drops the error of
  \<open>AddChildWithIndexOf\<close>, the leaf is left out of the tree, \<open>Add\<close> returns no error and the
  leaf is put first in the list, before a.
\<close>

theorem Values_unsorted_outside_alphabet:
  "andThenO (trieOf 26 [''a'', ''|'']) (\<lambda>(t, er).
     andThenO (Values t) (\<lambda>(t', es). Some (Inr (er, Size t', es)))) =
     Some (Inr (None, 2, [Some ''|'', Some ''a''])) \<and>
   sort_key ToLower [''a'', ''|''] = [''a'', ''|'']"
  by code_simp

text \<open>
  Claim C2, as the code has it: in every state \<open>t\<close> of a trie, holding the strings \<open>vs\<close>,
  \<open>Add\<close> of a string \<open>s\<close> over the alphabet returns a \<open>PrefixViolation\<close> and leaves the trie as
  it is exactly when \<open>s\<close> is, up to the case of its letters, one of the stored strings.
  Otherwise, and so for a strict prefix and for a strict extension of a stored string, it
  returns no error, \<open>Size\<close> grows by one and \<open>Values\<close> has \<open>s\<close> at its place in the order.
\<close>

theorem Add_PrefixViolation_iff_stored:
  assumes "reachable n t" and "inAlphabet n s"
  shows "\<exists>vs t' er. Values t = Some (Inr (t, map Some vs)) \<and> Size t = int (length vs) \<and>
           Add t s = Some (Inr (t', er)) \<and>
           (if ToLower s \<in> ToLower ` set vs then er = Some PrefixViolation \<and> t' = t
            else er = None \<and> Size t' = Size t + 1 \<and>
                 Values t' = Some (Inr (t', map Some (insort_key ToLower s vs))))"
proof -
  from reachable_inv [OF assms(1)] obtain vs where i: "trie_inv n t vs" by blast
  have al: "\<forall>v\<in>set vs. inAlphabet n v" using inv_sorted [OF i] by blast
  have c1: "Values t = Some (Inr (t, map Some vs))" using listed_Values [OF inv_listed [OF i]] .
  have c2: "Size t = int (length vs)" using inv_size [OF i] .
  have m: "(key s \<in> key ` set vs) = (ToLower s \<in> ToLower ` set vs)"
    using key_eq_iff [OF assms(2)] al by (auto simp: image_iff)
  show ?thesis
  proof (cases "key s \<in> key ` set vs")
    case True
    then have a: "Add t s = Some (Inr (t, Some PrefixViolation))"
      using Add_inv [OF i assms(2)] by simp
    have "if ToLower s \<in> ToLower ` set vs then Some PrefixViolation = Some PrefixViolation \<and> t = t
            else Some PrefixViolation = None \<and> Size t = Size t + 1 \<and>
                 Values t = Some (Inr (t, map Some (insort_key ToLower s vs)))"
      using True m by simp
    then show ?thesis using c1 c2 a by blast
  next
    case False
    then obtain t' where a: "Add t s = Some (Inr (t', None))"
      and i': "trie_inv n t' (insort_key key s vs)"
      using Add_inv [OF i assms(2)] by auto
    have ik: "insort_key key s vs = insort_key ToLower s vs"
      using key_le_iff [OF assms(2)] al by (intro insort_key_cong) blast
    have v: "Values t' = Some (Inr (t', map Some (insort_key ToLower s vs)))"
      using listed_Values [OF inv_listed [OF i']] ik by simp
    have sz: "Size t' = Size t + 1" using inv_size [OF i'] c2 by simp
    have "if ToLower s \<in> ToLower ` set vs then (None :: err option) = Some PrefixViolation \<and> t' = t
            else (None :: err option) = None \<and> Size t' = Size t + 1 \<and>
                 Values t' = Some (Inr (t', map Some (insort_key ToLower s vs)))"
      using False m v sz by simp
    then show ?thesis using c1 c2 a by blast
  qed
qed

theorem Add_PrefixViolation_iff_stored_witness:
  "\<exists>t t'. trieOf 26 [''ab''] = Some (Inr (t, None)) \<and>
     Add t ''AB'' = Some (Inr (t, Some PrefixViolation)) \<and>
     Add t ''abc'' = Some (Inr (t', None)) \<and> Size t = 1 \<and> Size t' = 2 \<and>
     Values t' = Some (Inr (t', [Some ''ab'', Some ''abc'']))"
proof -
  have "andThenO (trieOf 26 [''ab'']) (\<lambda>(t, er). andThenO (Values t) (\<lambda>(t', es).
          Some (Inr (er, es)))) = Some (Inr (None, [Some ''ab'']))"
    by code_simp
  then obtain t t1 where t: "trieOf 26 [''ab''] = Some (Inr (t, None))"
    and v: "Values t = Some (Inr (t1, [Some ''ab'']))"
    by (auto simp: andThenO_def split: option.splits sum.splits Option.bind_splits)
  have ia: "\<forall>x\<in>set [''ab'']. inAlphabet 26 x" "inAlphabet 26 ''AB''" "inAlphabet 26 ''abc''"
    by code_simp+
  have r: "reachable 26 t" using trieOf_reachable [OF _ _ ia(1) t] by (simp add: maxInt_def)
  have m1: "ToLower ''AB'' \<in> ToLower ` set [''ab'']" by code_simp
  have m2: "ToLower ''abc'' \<notin> ToLower ` set [''ab'']" by code_simp
  have m3: "insort_key ToLower ''abc'' [''ab''] = [''ab'', ''abc'']" by code_simp
  from Add_PrefixViolation_iff_stored [OF r ia(2)] obtain vs t' er where
    x: "Values t = Some (Inr (t, map Some vs))" "Size t = int (length vs)"
       "Add t ''AB'' = Some (Inr (t', er))"
       "if ToLower ''AB'' \<in> ToLower ` set vs then er = Some PrefixViolation \<and> t' = t
        else er = None \<and> Size t' = Size t + 1 \<and>
             Values t' = Some (Inr (t', map Some (insort_key ToLower ''AB'' vs)))"
    by blast
  have "map Some vs = map Some [''ab'']" using x(1) v by simp
  then have vs: "vs = [''ab'']" by (simp only: inj_map_eq_map [OF inj_Some])
  have a: "Add t ''AB'' = Some (Inr (t, Some PrefixViolation))" "Size t = 1"
    using x(2,3,4) m1 unfolding vs by simp_all
  from Add_PrefixViolation_iff_stored [OF r ia(3)] obtain ws t' er where
    y: "Values t = Some (Inr (t, map Some ws))" "Size t = int (length ws)"
       "Add t ''abc'' = Some (Inr (t', er))"
       "if ToLower ''abc'' \<in> ToLower ` set ws then er = Some PrefixViolation \<and> t' = t
        else er = None \<and> Size t' = Size t + 1 \<and>
             Values t' = Some (Inr (t', map Some (insort_key ToLower ''abc'' ws)))"
    by blast
  have "map Some ws = map Some [''ab'']" using y(1) v by simp
  then have ws: "ws = [''ab'']" by (simp only: inj_map_eq_map [OF inj_Some])
  have b: "Add t ''abc'' = Some (Inr (t', None))" "Size t' = 2"
    "Values t' = Some (Inr (t', [Some ''ab'', Some ''abc'']))"
    using y(2,3,4) m2 m3 unfolding ws by simp_all
  show ?thesis using t a b by blast
qed

text \<open>
  The claim as written fails: the string digitizer is prefix-free, so \<open>insert\<close> refuses a
  \<open>Matched\<close> search only. In the trie holding ab, both the extension abcd and the prefix a
  are inserted without an error.
\<close>

theorem Add_of_prefix_or_extension_succeeds:
  "andThenO (trieOf 26 [''ab'']) (\<lambda>(t, er). andThenO (Add t ''abcd'') (\<lambda>(t', er').
     andThenO (Values t') (\<lambda>(t'', es). Some (Inr (er, er', Size t, Size t', es))))) =
     Some (Inr (None, None, 1, 2, [Some ''ab'', Some ''abcd''])) \<and>
   andThenO (trieOf 26 [''ab'']) (\<lambda>(t, er). andThenO (Add t ''a'') (\<lambda>(t', er').
     andThenO (Values t') (\<lambda>(t'', es). Some (Inr (er, er', Size t, Size t', es))))) =
     Some (Inr (None, None, 1, 2, [Some ''a'', Some ''ab'']))"
  by code_simp

text \<open>
  Claim C3: \<open>Completions\<close> is claimed never to panic on a non-empty trie. On the trie
  holding only a, the search for b stops at the root; \<open>processedEndOfString\<close> then calls
  \<open>ChildWithIndexOf\<close> on the root's parent, which is nil, before it looks at \<open>IsRoot\<close>.
\<close>

theorem Completions_panics_at_root:
  "andThenO (trieOf 26 [''a'']) (\<lambda>(t, er). Completions t ''b'' []) = Some (Inl NilDereference)"
  by code_simp

text \<open>
  Claim C4: an index equal to the number of slots is claimed to give an error from
  \<open>ChildWithIndexOf\<close> and false from \<open>RemoveChildWithIndexOf\<close>. The bounds check of the
  two accepts that index (it compares with \<open>>\<close>, where \<open>AddChildWithIndexOf\<close> compares with
  \<open>>=\<close>), and the slice access panics: here on a node with 5 slots and index 5.
\<close>

theorem index_equal_to_radix_panics:
  "ChildWithIndexOf [newNode 5] (Some 0) 5 = Inl IndexPanic \<and>
   RemoveChildWithIndexOf [newNode 5] (Some 0) 5 = Inl IndexPanic \<and>
   AddChildWithIndexOf [newNode 5, newNode 5] (Some 0) 5 (Some 1)
     = Inr ([newNode 5, newNode 5], Some IndexOutOfRange)"
  by code_simp

text \<open>
  Claim C5: the exported operations of a radix tree are claimed to go through the
  \<open>find\<close>, \<open>addNode\<close> and \<open>remove\<close> of the radix tree. They are the promoted methods of the
  embedded trie. After \<open>Add\<close> of ab the heap has six cells (head, tail, the leaf, the root
  and one inner node per letter: no edge is compressed), and \<open>Remove\<close> of ab takes the
  string out and brings \<open>Size\<close> from 2 to 1, which the empty \<open>remove\<close> of the radix tree
  would not.
\<close>

theorem radixTree_Remove_runs_trie_removal:
  "andThenO (Some (NewRadixTree 26)) (\<lambda>rt.
   andThenO (radixTree_Add rt ''ab'') (\<lambda>(rt1, e1).
   andThenO (radixTree_Add rt1 ''cd'') (\<lambda>(rt2, e2).
   andThenO (radixTree_Remove rt2 ''ab'') (\<lambda>(rt3, removed).
   andThenO (radixTree_Contains rt3 ''ab'') (\<lambda>found.
   andThenO (radixTree_Values rt3) (\<lambda>(rt4, es).
   Some (Inr (e1, length (heap (embedded rt1)), e2, radixTree_Size rt2, removed,
              radixTree_Size rt3, found, es)))))))) =
   Some (Inr (None, 6, None, 2, True, 1, False, [Some ''cd'']))"
  by code_simp

text \<open>
  Claim C6: in a heap whose nodes have their counters right, as those that \<open>newNode\<close> and
  \<open>newRootNode\<close> make have, after any sequence of calls of \<open>AddChildWithIndexOf\<close> and
  \<open>RemoveChildWithIndexOf\<close> that returns, the counter \<open>numChildren\<close> of every node is the
  number of its non-nil slots, and \<open>HasChildren\<close> is true exactly when some slot is
  occupied.
\<close>

theorem numChildren_counts_occupied_slots:
  assumes "countsOk h" and "runNodeCalls h calls = Inr h'" and "n < length h'"
  shows "numChildren (h' ! n) = int (length (filter (\<lambda>r. r \<noteq> None) (children (h' ! n)))) \<and>
         HasChildren h' (Some n) = Inr (\<exists>r\<in>set (children (h' ! n)). r \<noteq> None)"
proof -
  have ok: "countsOk h'" using runNodeCalls_counts [OF assms(1,2)] .
  have nc: "numChildren (h' ! n) = int (length (filter (\<lambda>r. r \<noteq> None) (children (h' ! n))))"
    using countsOk_nth [OF ok assms(3)] by (simp add: occupied_def)
  have "(0 < length (filter (\<lambda>r. r \<noteq> None) (children (h' ! n)))) =
        (\<exists>r\<in>set (children (h' ! n)). r \<noteq> None)"
    by (simp add: filter_empty_conv)
  then show ?thesis using nc assms(3) by (simp add: HasChildren_def load_def andThen_def)
qed

theorem numChildren_counts_occupied_slots_witness:
  "countsOk [newNode 3, newNode 3] \<and>
   runNodeCalls [newNode 3, newNode 3]
     [AddChildCall 0 1 (Some 1), AddChildCall 0 1 (Some 1), RemoveChildCall 0 2, RemoveChildCall 0 1,
      AddChildCall 0 2 (Some 1)] =
     Inr [(newNode 3)\<lparr>children := [None, None, Some 1], numChildren := 1\<rparr>,
          (newNode 3)\<lparr>parent := Some 0\<rparr>] \<and>
   numChildren ([(newNode 3)\<lparr>children := [None, None, Some 1], numChildren := 1\<rparr>,
          (newNode 3)\<lparr>parent := Some 0\<rparr>] ! 0) = 1 \<and>
   HasChildren [(newNode 3)\<lparr>children := [None, None, Some 1], numChildren := 1\<rparr>,
          (newNode 3)\<lparr>parent := Some 0\<rparr>] (Some 0) = Inr True"
proof -
  have a: "countsOk [newNode 3, newNode 3]"
    by (simp add: countsOk_def newNode_def emptyCell_def occupied_def)
  have b: "runNodeCalls [newNode 3, newNode 3]
     [AddChildCall 0 1 (Some 1), AddChildCall 0 1 (Some 1), RemoveChildCall 0 2, RemoveChildCall 0 1,
      AddChildCall 0 2 (Some 1)] =
     Inr [(newNode 3)\<lparr>children := [None, None, Some 1], numChildren := 1\<rparr>,
          (newNode 3)\<lparr>parent := Some 0\<rparr>]"
    by code_simp
  show ?thesis using a b numChildren_counts_occupied_slots [OF a b, of 0] by simp
qed

text \<open>
  Claim C7: \<open>IsDeleted\<close> of a leaf is true exactly when its previous link is nil. For a
  leaf \<open>l\<close> between a predecessor \<open>p\<close> and a successor \<open>s\<close>, \<open>Remove\<close> returns; afterwards
  the next of \<open>p\<close> is \<open>s\<close>, the previous of \<open>s\<close> is \<open>p\<close>, the previous of \<open>l\<close> is nil and its
  next is still \<open>s\<close>; no other link and no other field of any cell has changed; \<open>l\<close> is
  deleted, and an iterator that stands on it advances to \<open>s\<close>.
\<close>

theorem leaf_Remove_relinks_neighbours:
  assumes "l < length h" and "p < length h" and "s < length h"
    and "previous (h ! l) = Some p" and "nxt (h ! l) = Some s"
    and "p \<noteq> l" and "s \<noteq> l"
    and "\<not> isHead (h ! l)" and "\<not> isTail (h ! l)"
  shows "(\<forall>g a. a < length g \<longrightarrow> IsDeleted g (Some a) = Inr (previous (g ! a) = None)) \<and>
         (\<exists>h'. LeafRemove h (Some l) = Inr h' \<and> sameButLinks h h' \<and>
            Next h' (Some p) = Inr (Some s) \<and> Previous h' (Some s) = Inr (Some p) \<and>
            Previous h' (Some l) = Inr None \<and> Next h' (Some l) = Inr (Some s) \<and>
            (\<forall>a. a \<noteq> p \<longrightarrow> nxt (h' ! a) = nxt (h ! a)) \<and>
            (\<forall>a. a \<noteq> s \<and> a \<noteq> l \<longrightarrow> previous (h' ! a) = previous (h ! a)) \<and>
            IsDeleted h' (Some l) = Inr True \<and>
            advance h' \<lparr>ipointer = Some l\<rparr> =
              Some (Inr (h', \<lparr>ipointer = Some s\<rparr>, \<not> isTail (h ! s))))"
proof -
  obtain h' where h': "LeafRemove h (Some l) = Inr h'" "sameButLinks h h'"
      "nxt (h' ! p) = Some s" "previous (h' ! s) = Some p"
      "previous (h' ! l) = None" "nxt (h' ! l) = Some s"
      "\<forall>a. a \<noteq> p \<longrightarrow> nxt (h' ! a) = nxt (h ! a)"
      "\<forall>a. a \<noteq> s \<and> a \<noteq> l \<longrightarrow> previous (h' ! a) = previous (h ! a)"
    using LeafRemove_unsplice [OF assms(1-7)] by blast
  have len: "length h' = length h" using h'(2) by (simp add: sameButLinks_def)
  have fl: "isHead (h' ! l) = isHead (h ! l)" "isTail (h' ! l) = isTail (h ! l)"
    using sameButLinks_fields [OF h'(2) assms(1)] by simp_all
  have fs: "isTail (h' ! s) = isTail (h ! s)"
    using sameButLinks_fields [OF h'(2) assms(3)] by simp
  have c0: "\<forall>g a. a < length g \<longrightarrow> IsDeleted g (Some a) = Inr (previous (g ! a) = None)"
    by (simp add: IsDeleted_def load_def andThen_def)
  have c1: "Next h' (Some p) = Inr (Some s)"
    using h'(3) assms(2) len by (simp add: Next_def load_def andThen_def)
  have c2: "Previous h' (Some s) = Inr (Some p)"
    using h'(4) assms(3) len by (simp add: Previous_def load_def andThen_def)
  have c3: "Previous h' (Some l) = Inr None"
    using h'(5) assms(1) len by (simp add: Previous_def load_def andThen_def)
  have c4: "Next h' (Some l) = Inr (Some s)"
    using h'(6) assms(1) len by (simp add: Next_def load_def andThen_def)
  have c5: "IsDeleted h' (Some l) = Inr True"
    using h'(5) assms(1) len by (simp add: IsDeleted_def load_def andThen_def)
  have sk: "skipRemovedElements h' (Some l) = Some (Inr (h', Some s))"
    using skip_deleted_once [of l h' s] assms(1,3,8,9) len fl h'(4,5,6) by simp
  have c6: "advance h' \<lparr>ipointer = Some l\<rparr> =
              Some (Inr (h', \<lparr>ipointer = Some s\<rparr>, \<not> isTail (h ! s)))"
    using assms(1,3,8,9) len fl fs h'(5) sk
    by (simp add: advance_def IsTail_def IsHead_def IsDeleted_def load_def andThen_def andThenO_def)
  show ?thesis
    by (intro conjI exI [of _ h'] c0 h'(1) h'(2) c1 c2 c3 c4 h'(7) h'(8) c5 c6)
qed

theorem leaf_Remove_relinks_neighbours_witness:
  "LeafRemove [(newHeadNode)\<lparr>nxt := Some 1\<rparr>,
               (newLeafNode)\<lparr>nxt := Some 2, previous := Some 0\<rparr>,
               (newTailNode)\<lparr>nxt := Some 0, previous := Some 1\<rparr>] (Some 1) =
     Inr [(newHeadNode)\<lparr>nxt := Some 2\<rparr>,
          (newLeafNode)\<lparr>nxt := Some 2, previous := None\<rparr>,
          (newTailNode)\<lparr>nxt := Some 0, previous := Some 0\<rparr>] \<and>
   advance [(newHeadNode)\<lparr>nxt := Some 2\<rparr>,
          (newLeafNode)\<lparr>nxt := Some 2, previous := None\<rparr>,
          (newTailNode)\<lparr>nxt := Some 0, previous := Some 0\<rparr>] \<lparr>ipointer = Some 1\<rparr> =
     Some (Inr ([(newHeadNode)\<lparr>nxt := Some 2\<rparr>,
          (newLeafNode)\<lparr>nxt := Some 2, previous := None\<rparr>,
          (newTailNode)\<lparr>nxt := Some 0, previous := Some 0\<rparr>], \<lparr>ipointer = Some 2\<rparr>, False))"
proof -
  define h where "h = [(newHeadNode)\<lparr>nxt := Some 1\<rparr>,
               (newLeafNode)\<lparr>nxt := Some 2, previous := Some 0\<rparr>,
               (newTailNode)\<lparr>nxt := Some 0, previous := Some 1\<rparr>]"
  have r: "LeafRemove h (Some 1) = Inr [(newHeadNode)\<lparr>nxt := Some 2\<rparr>,
          (newLeafNode)\<lparr>nxt := Some 2, previous := None\<rparr>,
          (newTailNode)\<lparr>nxt := Some 0, previous := Some 0\<rparr>]"
    unfolding h_def by code_simp
  have pre: "1 < length h" "0 < length h" "2 < length h"
    "previous (h ! 1) = Some 0" "nxt (h ! 1) = Some 2" "(0::nat) \<noteq> 1" "(2::nat) \<noteq> 1"
    "\<not> isHead (h ! 1)" "\<not> isTail (h ! 1)"
    by (simp_all add: h_def newLeafNode_def newHeadNode_def newTailNode_def newNode_def emptyCell_def)
  from leaf_Remove_relinks_neighbours [OF pre] obtain h' where "LeafRemove h (Some 1) = Inr h'"
    "advance h' \<lparr>ipointer = Some 1\<rparr> = Some (Inr (h', \<lparr>ipointer = Some 2\<rparr>, \<not> isTail (h ! 2)))"
    by blast
  moreover have "isTail (h ! 2)"
    by (simp add: h_def newTailNode_def newNode_def emptyCell_def)
  ultimately show ?thesis using r unfolding h_def [symmetric] by simp
qed

text \<open>
  Claim C8 (scenario 4 of the specification): after inserting bac, dab, dabb, dac, daca,
  dabba and ab into a fresh trie, no insertion having returned an error, the predecessor
  of dabba is dabb, the predecessor of bac is ab, the successor of dabba is dac and the
  successor of bac is dab. The theorem runs the scenario for the alphabet of 26 letters
  and for the alphabet of 4 letters that the repository's test uses.
\<close>

theorem scenario_predecessor_successor:
  "n \<in> {26, 4} \<Longrightarrow>
   andThenO (trieOf n [''bac'', ''dab'', ''dabb'', ''dac'', ''daca'', ''dabba'', ''ab''])
     (\<lambda>(t, er).
       andThenO (Predecessor t ''dabba'') (\<lambda>p1.
       andThenO (Predecessor t ''bac'') (\<lambda>p2.
       andThenO (Successor t ''dabba'') (\<lambda>s1.
       andThenO (Successor t ''bac'') (\<lambda>s2. Some (Inr (er, p1, p2, s1, s2)))))))
   = Some (Inr (None, Some ''dabb'', Some ''ab'', Some ''dac'', Some ''dab''))"
proof -
  assume "n \<in> {26, 4}"
  then consider "n = 26" | "n = 4" by auto
  then show ?thesis
  proof cases
    case 1
    show ?thesis unfolding 1 by code_simp
  next
    case 2
    show ?thesis unfolding 2 by code_simp
  qed
qed

theorem scenario_predecessor_successor_witness:
  "andThenO (trieOf 26 [''bac'', ''dab'', ''dabb'', ''dac'', ''daca'', ''dabba'', ''ab''])
     (\<lambda>(t, er).
       andThenO (Predecessor t ''dabba'') (\<lambda>p1.
       andThenO (Predecessor t ''bac'') (\<lambda>p2.
       andThenO (Successor t ''dabba'') (\<lambda>s1.
       andThenO (Successor t ''bac'') (\<lambda>s2. Some (Inr (er, p1, p2, s1, s2)))))))
   = Some (Inr (None, Some ''dabb'', Some ''ab'', Some ''dac'', Some ''dab''))"
  using scenario_predecessor_successor [of 26] by simp





end
